theory Spec2Isabelle
  imports Main "HOL-Library.AList"
begin

section \<open>Data model\<close>

text \<open>
  A manifest is a \<^verbatim>\<open>unstructured.Unstructured\<close>: a struct with one field \<^verbatim>\<open>Object\<close>, a
  \<^verbatim>\<open>map[string]interface{}\<close> that may be nil. The JSON-like values in the map are a datatype;
  a map is an association list with unique keys (\<open>AList.update\<close> keeps them unique).
\<close>

datatype jvalue = JNull | JBool bool | JNumber int | JString string
  | JArray "jvalue list" | JObject "(string \<times> jvalue) list"

record Unstructured =
  Object :: "(string \<times> jvalue) list option"

text \<open>
  A Go slice of manifests shares its backing array, and the maps in it, with whoever else
  holds the slice. The shared memory is a store of manifests, and a slice is the list of
  the addresses of its elements.
\<close>

type_synonym addr = nat
type_synonym store = "addr \<Rightarrow> Unstructured"

text \<open>
  The injected stages. The context argument is handed through unchanged and is left out.
  A stage fails with a message (\<open>Inl\<close>) or returns the new sequence (\<open>Inr\<close>). Filters,
  transformers and post-renderers have one shape, the one of the interface in section 6 of
  the specification; a selector decides on a whole source.
\<close>

type_synonym PostRenderer = "Unstructured list \<Rightarrow> string + Unstructured list"
type_synonym Filter = PostRenderer
type_synonym Transformer = PostRenderer

record Source =
  Objects :: "addr list"
  PostRenderers :: "PostRenderer list"

type_synonym SourceSelector = "store \<Rightarrow> Source \<Rightarrow> string + bool"

record RendererOptions =
  Filters :: "Filter list"
  Transformers :: "Transformer list"
  PostRenderers :: "PostRenderer list"
  SourceSelectors :: "SourceSelector list"
  SourceAnnotations :: bool
  ContentHash :: bool

datatype error =
    InvalidSource nat nat
  | SourceSelectorError string
  | SourcePostRenderError string
  | RenderPostRenderError string
  | ApplyError string

definition rendererType :: string where
  "rendererType = ''mem''"

section \<open>Options (mem\_option.go)\<close>

text \<open>
  A \<^verbatim>\<open>RendererOption\<close> is either a \<^verbatim>\<open>RendererOptions\<close> struct, applied by its method
  \<^verbatim>\<open>ApplyTo\<close>, or a \<^verbatim>\<open>util.FunctionalOption\<close>, a closure run on the target.
\<close>

datatype RendererOption =
    StructOption RendererOptions
  | FunctionalOption "RendererOptions \<Rightarrow> RendererOptions"

definition RendererOptions_ApplyTo :: "RendererOptions \<Rightarrow> RendererOptions \<Rightarrow> RendererOptions" where
  "RendererOptions_ApplyTo opts target =
     target\<lparr>Filters := Filters opts,
            Transformers := Transformers opts,
            PostRenderers := RendererOptions.PostRenderers target @ RendererOptions.PostRenderers opts,
            SourceSelectors := SourceSelectors target @ SourceSelectors opts,
            SourceAnnotations := SourceAnnotations opts,
            ContentHash := ContentHash opts\<rparr>"

fun ApplyTo :: "RendererOption \<Rightarrow> RendererOptions \<Rightarrow> RendererOptions" where
  "ApplyTo (StructOption opts) target = RendererOptions_ApplyTo opts target"
| "ApplyTo (FunctionalOption f) target = f target"

definition WithFilter :: "Filter \<Rightarrow> RendererOption" where
  "WithFilter f = FunctionalOption (\<lambda>opts. opts\<lparr>Filters := Filters opts @ [f]\<rparr>)"

definition WithTransformer :: "Transformer \<Rightarrow> RendererOption" where
  "WithTransformer t = FunctionalOption (\<lambda>opts. opts\<lparr>Transformers := Transformers opts @ [t]\<rparr>)"

definition WithPostRenderer :: "PostRenderer \<Rightarrow> RendererOption" where
  "WithPostRenderer p =
     FunctionalOption (\<lambda>opts. opts\<lparr>PostRenderers := RendererOptions.PostRenderers opts @ [p]\<rparr>)"

definition WithSourceSelector :: "SourceSelector \<Rightarrow> RendererOption" where
  "WithSourceSelector s =
     FunctionalOption (\<lambda>opts. opts\<lparr>SourceSelectors := SourceSelectors opts @ [s]\<rparr>)"

definition WithSourceAnnotations :: "bool \<Rightarrow> RendererOption" where
  "WithSourceAnnotations enabled = FunctionalOption (\<lambda>opts. opts\<lparr>SourceAnnotations := enabled\<rparr>)"

definition WithContentHash :: "bool \<Rightarrow> RendererOption" where
  "WithContentHash enabled = FunctionalOption (\<lambda>opts. opts\<lparr>ContentHash := enabled\<rparr>)"

text \<open>The defaults of \<^verbatim>\<open>New\<close> and its loop over the options, in order.\<close>

definition defaultOptions :: RendererOptions where
  "defaultOptions =
     \<lparr>Filters = [], Transformers = [], PostRenderers = [], SourceSelectors = [],
      SourceAnnotations = False, ContentHash = True\<rparr>"

fun applyOptions :: "RendererOption list \<Rightarrow> RendererOptions \<Rightarrow> RendererOptions" where
  "applyOptions [] rendererOpts = rendererOpts"
| "applyOptions (opt # rest) rendererOpts = applyOptions rest (ApplyTo opt rendererOpts)"

section \<open>The renderer (mem.go)\<close>

text \<open>
  \<^verbatim>\<open>sourceHolder\<close> embeds a \<^verbatim>\<open>Source\<close>; the renderer keeps the holders and the options.
\<close>

record sourceHolder =
  Source :: Source

record Renderer =
  inputs :: "sourceHolder list"
  opts :: RendererOptions


subsection \<open>Annotations of a manifest\<close>

text \<open>
  \<^verbatim>\<open>GetAnnotations\<close> and \<^verbatim>\<open>SetAnnotations\<close> belong to the Kubernetes library. They read and
  write the nested field \<^verbatim>\<open>metadata.annotations\<close>. Reading gives nil when the field is
  absent, when a step of the path is not a map, or when a value is not a string. Writing
  creates a nil \<^verbatim>\<open>Object\<close> and an absent \<^verbatim>\<open>metadata\<close>, and silently does nothing when
  \<^verbatim>\<open>metadata\<close> is present and not a map. \<^verbatim>\<open>Process\<close> only ever writes a non-nil map.
\<close>

fun stringMap :: "(string \<times> jvalue) list \<Rightarrow> (string \<times> string) list option" where
  "stringMap [] = Some []"
| "stringMap ((k, JString v) # kvs) =
     (case stringMap kvs of None \<Rightarrow> None | Some m \<Rightarrow> Some ((k, v) # m))"
| "stringMap ((k, _) # kvs) = None"

definition GetAnnotations :: "Unstructured \<Rightarrow> (string \<times> string) list option" where
  "GetAnnotations u =
     (case Object u of
        None \<Rightarrow> None
      | Some obj \<Rightarrow>
          (case map_of obj ''metadata'' of
             Some (JObject md) \<Rightarrow>
               (case map_of md ''annotations'' of
                  Some (JObject anns) \<Rightarrow> stringMap anns
                | _ \<Rightarrow> None)
           | _ \<Rightarrow> None))"

definition SetAnnotations :: "(string \<times> string) list \<Rightarrow> Unstructured \<Rightarrow> Unstructured" where
  "SetAnnotations annotations u =
     (let obj = (case Object u of None \<Rightarrow> [] | Some m \<Rightarrow> m);
          val = JObject (map (\<lambda>(k, v). (k, JString v)) annotations)
      in case map_of obj ''metadata'' of
           None \<Rightarrow>
             \<lparr>Object = Some (AList.update ''metadata'' (JObject [(''annotations'', val)]) obj)\<rparr>
         | Some (JObject md) \<Rightarrow>
             \<lparr>Object = Some (AList.update ''metadata''
                               (JObject (AList.update ''annotations'' val md)) obj)\<rparr>
         | Some _ \<Rightarrow> \<lparr>Object = Some obj\<rparr>)"

text \<open>
  Modelled from the spec: the two reserved metadata keys. The engine package declares them
  (\<^verbatim>\<open>types.AnnotationSourceType\<close>, \<^verbatim>\<open>types.AnnotationContentHash\<close>) and the repository only
  names them; nothing below depends on the strings but that they differ.
\<close>

definition AnnotationSourceType :: string where
  "AnnotationSourceType = ''source.type''"

definition AnnotationContentHash :: string where
  "AnnotationContentHash = ''content.hash''"

text \<open>
  Modelled from the spec: \<^verbatim>\<open>types.SetContentHash\<close> of the engine package computes the
  content digest of the manifest it is handed and stores it under the reserved key. The
  digest function itself (SHA-256 over the canonical content) is the parameter \<open>digest\<close>.
\<close>

definition SetContentHash :: "(Unstructured \<Rightarrow> string) \<Rightarrow> Unstructured \<Rightarrow> Unstructured" where
  "SetContentHash digest u =
     (let annotations = (case GetAnnotations u of None \<Rightarrow> [] | Some m \<Rightarrow> m)
      in SetAnnotations (AList.update AnnotationContentHash (digest u) annotations) u)"

subsection \<open>The chains of the engine package\<close>

text \<open>
  Modelled from the spec: \<^verbatim>\<open>pipeline.ApplySourceSelectors\<close>, \<^verbatim>\<open>pipeline.ApplyPostRenderers\<close>
  and \<^verbatim>\<open>types.BuildPostRendererChain\<close> are functions of the engine package (section 4.3,
  steps 1a, 3 and 4). Selectors run in order, the first error is returned, the first \<^verbatim>\<open>false\<close> ends the
  evaluation; stages run in order, each on the output of the one before, and the first
  error is returned; the chain is filters, then transformers, then post-renderers.
\<close>

fun ApplySourceSelectors :: "store \<Rightarrow> Source \<Rightarrow> SourceSelector list \<Rightarrow> string + bool" where
  "ApplySourceSelectors h src [] = Inr True"
| "ApplySourceSelectors h src (s # rest) =
     (case s h src of
        Inl e \<Rightarrow> Inl e
      | Inr ok \<Rightarrow> if \<not> ok then Inr False else ApplySourceSelectors h src rest)"

fun ApplyPostRenderers :: "Unstructured list \<Rightarrow> PostRenderer list \<Rightarrow> string + Unstructured list" where
  "ApplyPostRenderers objects [] = Inr objects"
| "ApplyPostRenderers objects (p # rest) =
     (case p objects of
        Inl e \<Rightarrow> Inl e
      | Inr objects' \<Rightarrow> ApplyPostRenderers objects' rest)"

definition BuildPostRendererChain ::
  "Filter list \<Rightarrow> Transformer list \<Rightarrow> PostRenderer list \<Rightarrow> PostRenderer list" where
  "BuildPostRendererChain filters transformers postRenderers =
     filters @ transformers @ postRenderers"

subsection \<open>Construction\<close>

text \<open>
  Modelled from the spec: \<^verbatim>\<open>sourceHolder.Validate\<close> is in a file of the repository that is
  not among the sources. Section 4.1: every document's body must be non-empty, a nil body is
  the only invalid state, and the error names the offending document index. \<open>None\<close> is
  success, \<open>Some j\<close> the error for the document at index \<open>j\<close>.
\<close>

fun validateObjects :: "store \<Rightarrow> addr list \<Rightarrow> nat \<Rightarrow> nat option" where
  "validateObjects h [] j = None"
| "validateObjects h (obj # rest) j =
     (if Object (h obj) = None then Some j else validateObjects h rest (Suc j))"

definition Validate :: "store \<Rightarrow> sourceHolder \<Rightarrow> nat option" where
  "Validate h holder = validateObjects h (Objects (Source holder)) 0"

text \<open>
  The loop of \<^verbatim>\<open>New\<close> over the inputs: \<open>i\<close> is the index of the first input of the list. The
  holder keeps the \<^verbatim>\<open>Source\<close> it is given, that is the caller's slice, not a copy of it.
\<close>

fun wrapSources :: "store \<Rightarrow> Source list \<Rightarrow> nat \<Rightarrow> error + sourceHolder list" where
  "wrapSources h [] i = Inr []"
| "wrapSources h (inp # rest) i =
     (let holder = \<lparr>Source = inp\<rparr>
      in case Validate h holder of
           Some j \<Rightarrow> Inl (InvalidSource i j)
         | None \<Rightarrow>
             (case wrapSources h rest (Suc i) of
                Inl e \<Rightarrow> Inl e
              | Inr holders \<Rightarrow> Inr (holder # holders)))"

definition New :: "store \<Rightarrow> Source list \<Rightarrow> RendererOption list \<Rightarrow> error + Renderer" where
  "New h ins options =
     (let rendererOpts = applyOptions options defaultOptions
      in case wrapSources h ins 0 of
           Inl e \<Rightarrow> Inl e
         | Inr holders \<Rightarrow> Inr \<lparr>inputs = holders, opts = rendererOpts\<rparr>)"

subsection \<open>Process\<close>

text \<open>
  \<^verbatim>\<open>obj.DeepCopy()\<close> reads the manifest at the address and gives a value of its own. From
  there on the copy belongs to the call and is carried as a value.
\<close>

definition DeepCopy :: "store \<Rightarrow> addr \<Rightarrow> Unstructured" where
  "DeepCopy h obj = h obj"

definition addSourceAnnotations :: "Unstructured \<Rightarrow> Unstructured" where
  "addSourceAnnotations objCopy =
     (let annotations = (case GetAnnotations objCopy of None \<Rightarrow> [] | Some m \<Rightarrow> m)
      in SetAnnotations (AList.update AnnotationSourceType rendererType annotations) objCopy)"

definition copyObject :: "store \<Rightarrow> RendererOptions \<Rightarrow> addr \<Rightarrow> Unstructured" where
  "copyObject h ro obj =
     (let objCopy = DeepCopy h obj
      in if SourceAnnotations ro then addSourceAnnotations objCopy else objCopy)"

definition hashObjects ::
  "(Unstructured \<Rightarrow> string) \<Rightarrow> RendererOptions \<Rightarrow> Unstructured list \<Rightarrow> Unstructured list" where
  "hashObjects digest ro objects =
     (if ContentHash ro then map (SetContentHash digest) objects else objects)"

text \<open>
  The variant of \<^verbatim>\<open>Process\<close> with source selectors and post-renderers. \<open>renderSources\<close> is
  its loop over the holders, with the accumulator \<^verbatim>\<open>allObjects\<close>.
\<close>

fun renderSources ::
  "(Unstructured \<Rightarrow> string) \<Rightarrow> store \<Rightarrow> RendererOptions \<Rightarrow> sourceHolder list \<Rightarrow>
     Unstructured list \<Rightarrow> error + Unstructured list" where
  "renderSources digest h ro [] allObjects = Inr allObjects"
| "renderSources digest h ro (holder # rest) allObjects =
     (case ApplySourceSelectors h (Source holder) (SourceSelectors ro) of
        Inl e \<Rightarrow> Inl (SourceSelectorError e)
      | Inr selected \<Rightarrow>
          if \<not> selected then renderSources digest h ro rest allObjects
          else
            (let sourceObjects = map (copyObject h ro) (Objects (Source holder));
                 sourceObjects = hashObjects digest ro sourceObjects
             in case ApplyPostRenderers sourceObjects (Source.PostRenderers (Source holder)) of
                  Inl e \<Rightarrow> Inl (SourcePostRenderError e)
                | Inr sourceObjects' \<Rightarrow>
                    renderSources digest h ro rest (allObjects @ sourceObjects')))"

definition Process :: "(Unstructured \<Rightarrow> string) \<Rightarrow> store \<Rightarrow> Renderer \<Rightarrow> error + Unstructured list" where
  "Process digest h r =
     (case renderSources digest h (opts r) (inputs r) [] of
        Inl e \<Rightarrow> Inl e
      | Inr allObjects \<Rightarrow>
          (let chain = BuildPostRendererChain (Filters (opts r)) (Transformers (opts r))
                         (RendererOptions.PostRenderers (opts r))
           in case ApplyPostRenderers allObjects chain of
                Inl e \<Rightarrow> Inl (RenderPostRenderError e)
              | Inr result \<Rightarrow> Inr result))"

text \<open>
  The simpler variant of \<^verbatim>\<open>Process\<close>: no selectors, no post-renderers, one pass over all
  objects of all inputs, the hashes set afterwards, then \<^verbatim>\<open>pipeline.Apply\<close>. Its \<^verbatim>\<open>Source\<close>
  has the field \<^verbatim>\<open>Objects\<close> only; here it reads that field and no other.
  \<^verbatim>\<open>pipeline.Apply\<close> is a function of the engine package; it is not among the sources and
  the specification does not describe it, so it is the parameter \<open>pipelineApply\<close>.
\<close>

definition Process_simple ::
  "(Unstructured list \<Rightarrow> Filter list \<Rightarrow> Transformer list \<Rightarrow> string + Unstructured list) \<Rightarrow>
     (Unstructured \<Rightarrow> string) \<Rightarrow> store \<Rightarrow> Renderer \<Rightarrow> error + Unstructured list" where
  "Process_simple pipelineApply digest h r =
     (let allObjects =
            concat (map (\<lambda>holder. map (copyObject h (opts r)) (Objects (Source holder))) (inputs r));
          allObjects = hashObjects digest (opts r) allObjects
      in case pipelineApply allObjects (Filters (opts r)) (Transformers (opts r)) of
           Inl e \<Rightarrow> Inl (ApplyError e)
         | Inr transformed \<Rightarrow> Inr transformed)"

definition Name :: "Renderer \<Rightarrow> string" where
  "Name r = rendererType"


section \<open>Vocabulary of the statements\<close>

text \<open>
  The functional options the package exports, as data: \<open>functional\<close> maps each to the
  option the \<^verbatim>\<open>With...\<close> constructor of that name builds. \<open>option_of\<close> adds the struct-based
  option. The functions below give what one option contributes to each list.
\<close>

datatype setting =
    AddFilter Filter
  | AddTransformer Transformer
  | AddPostRenderer PostRenderer
  | AddSourceSelector SourceSelector
  | EnableSourceAnnotations bool
  | EnableContentHash bool

fun functional :: "setting \<Rightarrow> RendererOption" where
  "functional (AddFilter f) = WithFilter f"
| "functional (AddTransformer t) = WithTransformer t"
| "functional (AddPostRenderer p) = WithPostRenderer p"
| "functional (AddSourceSelector s) = WithSourceSelector s"
| "functional (EnableSourceAnnotations b) = WithSourceAnnotations b"
| "functional (EnableContentHash b) = WithContentHash b"

fun option_of :: "RendererOptions + setting \<Rightarrow> RendererOption" where
  "option_of (Inl v) = StructOption v"
| "option_of (Inr s) = functional s"

fun filtersOf :: "setting \<Rightarrow> Filter list" where
  "filtersOf (AddFilter f) = [f]"
| "filtersOf _ = []"

fun transformersOf :: "setting \<Rightarrow> Transformer list" where
  "transformersOf (AddTransformer t) = [t]"
| "transformersOf _ = []"

fun postRenderersOf :: "RendererOptions + setting \<Rightarrow> PostRenderer list" where
  "postRenderersOf (Inl v) = RendererOptions.PostRenderers v"
| "postRenderersOf (Inr (AddPostRenderer p)) = [p]"
| "postRenderersOf (Inr _) = []"

fun sourceSelectorsOf :: "RendererOptions + setting \<Rightarrow> SourceSelector list" where
  "sourceSelectorsOf (Inl v) = SourceSelectors v"
| "sourceSelectorsOf (Inr (AddSourceSelector s)) = [s]"
| "sourceSelectorsOf (Inr _) = []"

text \<open>Stages and selectors for the concrete instances.\<close>

definition keepAll :: PostRenderer where
  "keepAll objects = Inr objects"

definition dropAll :: PostRenderer where
  "dropAll objects = Inr []"

definition failing :: PostRenderer where
  "failing objects = Inl ''boom''"

text \<open>Manifests, a store and sources for the concrete instances.\<close>

definition valueDoc :: Unstructured where
  "valueDoc = \<lparr>Object = Some [(''key'', JString ''value'')]\<rparr>"

definition nilDoc :: Unstructured where
  "nilDoc = \<lparr>Object = None\<rparr>"

definition callerStore :: store where
  "callerStore = (\<lambda>a. nilDoc)(0 := valueDoc)"

definition plainSource :: "addr list \<Rightarrow> Source" where
  "plainSource objs = \<lparr>Objects = objs, PostRenderers = []\<rparr>"

text \<open>
  Names for the parts of \<^verbatim>\<open>Process\<close> the statements speak about: whether the selector
  chain accepts or rejects a holder, the per-source sequence (the copies, annotated and
  hashed, after the source's own post-renderers), and the tagging of a stage error.
\<close>

definition accepted :: "store \<Rightarrow> RendererOptions \<Rightarrow> sourceHolder \<Rightarrow> bool" where
  "accepted h ro holder = (ApplySourceSelectors h (Source holder) (SourceSelectors ro) = Inr True)"

definition rejected :: "store \<Rightarrow> RendererOptions \<Rightarrow> sourceHolder \<Rightarrow> bool" where
  "rejected h ro holder = (ApplySourceSelectors h (Source holder) (SourceSelectors ro) = Inr False)"

definition renderSource ::
  "(Unstructured \<Rightarrow> string) \<Rightarrow> store \<Rightarrow> RendererOptions \<Rightarrow> sourceHolder \<Rightarrow>
     string + Unstructured list" where
  "renderSource digest h ro holder =
     ApplyPostRenderers (hashObjects digest ro (map (copyObject h ro) (Objects (Source holder))))
       (Source.PostRenderers (Source holder))"

definition sourceOutput ::
  "(Unstructured \<Rightarrow> string) \<Rightarrow> store \<Rightarrow> RendererOptions \<Rightarrow> sourceHolder \<Rightarrow> Unstructured list" where
  "sourceOutput digest h ro holder =
     (case renderSource digest h ro holder of Inl e \<Rightarrow> [] | Inr objects \<Rightarrow> objects)"

definition tagged :: "(string \<Rightarrow> error) \<Rightarrow> string + Unstructured list \<Rightarrow> error + Unstructured list" where
  "tagged tag res = (case res of Inl e \<Rightarrow> Inl (tag e) | Inr objects \<Rightarrow> Inr objects)"

text \<open>More selectors and stages for the concrete instances.\<close>

definition smallSource :: SourceSelector where
  "smallSource h src = Inr (length (Objects src) \<le> 1)"

definition failingSelector :: SourceSelector where
  "failingSelector h src = Inl ''boom''"

definition addNil :: PostRenderer where
  "addNil objects = Inr (objects @ [\<lparr>Object = None\<rparr>])"

text \<open>
  A digest function for the concrete instances. The digest of the engine is SHA-256 over
  the canonical content; this stand-in writes the content out, so that, like the hash, it
  tells manifests of different structure apart (section 4.3 d of the specification).
\<close>

fun encode :: "jvalue \<Rightarrow> string"
  and encode_fields :: "(string \<times> jvalue) list \<Rightarrow> string"
  and encode_items :: "jvalue list \<Rightarrow> string" where
  "encode JNull = ''null''"
| "encode (JBool b) = (if b then ''true'' else ''false'')"
| "encode (JNumber n) = (if n < 0 then ''-'' else ''+'') @ replicate (nat \<bar>n\<bar>) CHR ''1''"
| "encode (JString s) = ''<'' @ s @ ''>''"
| "encode (JArray xs) = ''['' @ encode_items xs @ '']''"
| "encode (JObject kvs) = ''{'' @ encode_fields kvs @ ''}''"
| "encode_fields [] = []"
| "encode_fields ((k, v) # kvs) = ''<'' @ k @ ''>:'' @ encode v @ '','' @ encode_fields kvs"
| "encode_items [] = []"
| "encode_items (v # vs) = encode v @ '','' @ encode_items vs"

definition structuralDigest :: "Unstructured \<Rightarrow> string" where
  "structuralDigest u =
     (case Object u of None \<Rightarrow> ''nil'' | Some obj \<Rightarrow> ''sha256:'' @ encode (JObject obj))"

definition otherDoc :: Unstructured where
  "otherDoc = \<lparr>Object = Some [(''kind'', JString ''ConfigMap'')]\<rparr>"

definition twoDocStore :: store where
  "twoDocStore = (\<lambda>a. nilDoc)(0 := valueDoc, 2 := otherDoc)"

definition failingSource :: "addr list \<Rightarrow> Source" where
  "failingSource objs = \<lparr>Objects = objs, PostRenderers = [failing]\<rparr>"

subsection \<open>Nil and empty slices\<close>

text \<open>
  Go tells the nil slice from an empty slice that \<^verbatim>\<open>make\<close> returned. The functions of the
  sections above carry the elements of a slice only. The ones below carry the slice: they
  are \<^verbatim>\<open>Process\<close> once more, statement by statement, for what is said about nil.
  \<open>make_slice\<close> is \<^verbatim>\<open>make([]T, 0)\<close> and \<^verbatim>\<open>make([]T, 0, n)\<close>; \<open>append_slice s t\<close> is
  \<^verbatim>\<open>append(s, t...)\<close>, which returns \<open>s\<close> itself when \<open>t\<close> has no element.
\<close>

datatype 'a slice = NilSlice | Slice "'a list"

fun elems :: "'a slice \<Rightarrow> 'a list" where
  "elems NilSlice = []"
| "elems (Slice xs) = xs"

definition make_slice :: "'a slice" where
  "make_slice = Slice []"

fun append_slice :: "'a slice \<Rightarrow> 'a slice \<Rightarrow> 'a slice" where
  "append_slice NilSlice t = (if elems t = [] then NilSlice else Slice (elems t))"
| "append_slice (Slice xs) t = Slice (xs @ elems t)"

text \<open>
  The options hold a stage as a function on the elements. What the stage is in Go, a
  function from a slice to a slice or an error, is given by the parameter \<open>run\<close>.

  Modelled from the spec: \<^verbatim>\<open>pipeline.ApplyPostRenderers\<close> is a function of the engine package.
  The stages run in order, each on the slice the one before returned, and the first error
  is returned (section 4.3, steps 1d and 4); with no stage the slice comes back as it was
  given (section 4.3, step 5: the empty input yields an empty, non-nil result).
\<close>

type_synonym SliceStage = "Unstructured slice \<Rightarrow> string + Unstructured slice"

fun ApplyPostRenderers_slice ::
  "(PostRenderer \<Rightarrow> SliceStage) \<Rightarrow> Unstructured slice \<Rightarrow> PostRenderer list \<Rightarrow>
     string + Unstructured slice" where
  "ApplyPostRenderers_slice run objects [] = Inr objects"
| "ApplyPostRenderers_slice run objects (p # rest) =
     (case run p objects of
        Inl e \<Rightarrow> Inl e
      | Inr objects' \<Rightarrow> ApplyPostRenderers_slice run objects' rest)"

fun renderSources_slice ::
  "(PostRenderer \<Rightarrow> SliceStage) \<Rightarrow> (Unstructured \<Rightarrow> string) \<Rightarrow> store \<Rightarrow> RendererOptions \<Rightarrow>
     sourceHolder list \<Rightarrow> Unstructured slice \<Rightarrow> error + Unstructured slice" where
  "renderSources_slice run digest h ro [] allObjects = Inr allObjects"
| "renderSources_slice run digest h ro (holder # rest) allObjects =
     (case ApplySourceSelectors h (Source holder) (SourceSelectors ro) of
        Inl e \<Rightarrow> Inl (SourceSelectorError e)
      | Inr selected \<Rightarrow>
          if \<not> selected then renderSources_slice run digest h ro rest allObjects
          else
            (let sourceObjects =
                   append_slice make_slice (Slice (map (copyObject h ro) (Objects (Source holder))));
                 sourceObjects = Slice (hashObjects digest ro (elems sourceObjects))
             in case ApplyPostRenderers_slice run sourceObjects
                       (Source.PostRenderers (Source holder)) of
                  Inl e \<Rightarrow> Inl (SourcePostRenderError e)
                | Inr sourceObjects' \<Rightarrow>
                    renderSources_slice run digest h ro rest
                      (append_slice allObjects sourceObjects')))"

definition Process_slice ::
  "(PostRenderer \<Rightarrow> SliceStage) \<Rightarrow> (Unstructured \<Rightarrow> string) \<Rightarrow> store \<Rightarrow> Renderer \<Rightarrow>
     error + Unstructured slice" where
  "Process_slice run digest h r =
     (case renderSources_slice run digest h (opts r) (inputs r) make_slice of
        Inl e \<Rightarrow> Inl e
      | Inr allObjects \<Rightarrow>
          (let chain = BuildPostRendererChain (Filters (opts r)) (Transformers (opts r))
                         (RendererOptions.PostRenderers (opts r))
           in case ApplyPostRenderers_slice run allObjects chain of
                Inl e \<Rightarrow> Inl (RenderPostRenderError e)
              | Inr result \<Rightarrow> Inr result))"

text \<open>
  The per-source slice, a result without elements, the tagging of a stage error, and two
  ways a stage on the elements is a stage on slices: one that always returns a slice of its
  own, one that returns nil when it has nothing to return.
\<close>

definition renderSource_slice ::
  "(PostRenderer \<Rightarrow> SliceStage) \<Rightarrow> (Unstructured \<Rightarrow> string) \<Rightarrow> store \<Rightarrow> RendererOptions \<Rightarrow>
     sourceHolder \<Rightarrow> string + Unstructured slice" where
  "renderSource_slice run digest h ro holder =
     ApplyPostRenderers_slice run
       (Slice (hashObjects digest ro (map (copyObject h ro) (Objects (Source holder)))))
       (Source.PostRenderers (Source holder))"

definition yieldsNothing :: "string + Unstructured slice \<Rightarrow> bool" where
  "yieldsNothing res = (case res of Inl e \<Rightarrow> False | Inr objects \<Rightarrow> elems objects = [])"

definition tagged_slice ::
  "(string \<Rightarrow> error) \<Rightarrow> string + Unstructured slice \<Rightarrow> error + Unstructured slice" where
  "tagged_slice tag res = (case res of Inl e \<Rightarrow> Inl (tag e) | Inr objects \<Rightarrow> Inr objects)"

definition freshSlice :: "PostRenderer \<Rightarrow> SliceStage" where
  "freshSlice p objects =
     (case p (elems objects) of Inl e \<Rightarrow> Inl e | Inr result \<Rightarrow> Inr (Slice result))"

definition nilWhenEmpty :: "PostRenderer \<Rightarrow> SliceStage" where
  "nilWhenEmpty p objects =
     (case p (elems objects) of
        Inl e \<Rightarrow> Inl e
      | Inr result \<Rightarrow> Inr (if result = [] then NilSlice else Slice result))"


subsection \<open>Process on the shared memory\<close>

text \<open>
  \<^verbatim>\<open>Process\<close> once more, with the memory it works on: the store of manifests and the next
  free address. A cell holds a manifest with all that is below it, so two manifests share
  structure exactly when they are one cell. \<^verbatim>\<open>DeepCopy\<close> (Kubernetes library) allocates a cell
  with the content of the one it copies; \<^verbatim>\<open>SetAnnotations\<close> and \<^verbatim>\<open>types.SetContentHash\<close> write
  to the cell they are given; \<^verbatim>\<open>append(sourceObjects, *objCopy)\<close> copies the struct, whose one
  field is the map, so the element of the slice is the cell of the copy.
\<close>

record memory =
  cells :: store
  nextAddr :: addr

definition DeepCopy_mem :: "memory \<Rightarrow> addr \<Rightarrow> memory \<times> addr" where
  "DeepCopy_mem m obj =
     (\<lparr>cells = (cells m)(nextAddr m := DeepCopy (cells m) obj), nextAddr = Suc (nextAddr m)\<rparr>,
      nextAddr m)"

definition addSourceAnnotations_mem :: "memory \<Rightarrow> addr \<Rightarrow> memory" where
  "addSourceAnnotations_mem m objCopy =
     m\<lparr>cells := (cells m)(objCopy := addSourceAnnotations (cells m objCopy))\<rparr>"

definition SetContentHash_mem :: "(Unstructured \<Rightarrow> string) \<Rightarrow> memory \<Rightarrow> addr \<Rightarrow> memory" where
  "SetContentHash_mem digest m obj =
     m\<lparr>cells := (cells m)(obj := SetContentHash digest (cells m obj))\<rparr>"

text \<open>The loop over \<^verbatim>\<open>holder.Objects\<close>, with the accumulator \<^verbatim>\<open>sourceObjects\<close>.\<close>

fun copyObjects_mem ::
  "RendererOptions \<Rightarrow> memory \<Rightarrow> addr list \<Rightarrow> addr list \<Rightarrow> memory \<times> addr list" where
  "copyObjects_mem ro m [] sourceObjects = (m, sourceObjects)"
| "copyObjects_mem ro m (obj # rest) sourceObjects =
     (case DeepCopy_mem m obj of
        (m1, objCopy) \<Rightarrow>
          (let m2 = (if SourceAnnotations ro then addSourceAnnotations_mem m1 objCopy else m1)
           in copyObjects_mem ro m2 rest (sourceObjects @ [objCopy])))"

text \<open>The loop \<^verbatim>\<open>for i := range sourceObjects\<close> that sets the hashes.\<close>

fun setHashes_mem :: "(Unstructured \<Rightarrow> string) \<Rightarrow> memory \<Rightarrow> addr list \<Rightarrow> memory" where
  "setHashes_mem digest m [] = m"
| "setHashes_mem digest m (obj # rest) = setHashes_mem digest (SetContentHash_mem digest m obj) rest"

definition hashObjects_mem ::
  "(Unstructured \<Rightarrow> string) \<Rightarrow> RendererOptions \<Rightarrow> memory \<Rightarrow> addr list \<Rightarrow> memory" where
  "hashObjects_mem digest ro m sourceObjects =
     (if ContentHash ro then setHashes_mem digest m sourceObjects else m)"

text \<open>
  A stage on the memory is handed the slice and returns the memory as it leaves it, with an
  error or the slice it returns. What a stage of the options does on the memory is given by
  the parameter \<open>runMem\<close>. A selector is a predicate: it reads the memory.

  Modelled from the spec: \<^verbatim>\<open>pipeline.ApplyPostRenderers\<close> of the engine package runs the
  stages in order, each on the slice the one before returned, and stops at the first error
  (section 4.3, steps 1d and 4).
\<close>

type_synonym MemStage = "memory \<Rightarrow> addr list \<Rightarrow> memory \<times> (string + addr list)"

fun ApplyPostRenderers_mem ::
  "(PostRenderer \<Rightarrow> MemStage) \<Rightarrow> memory \<Rightarrow> addr list \<Rightarrow> PostRenderer list \<Rightarrow>
     memory \<times> (string + addr list)" where
  "ApplyPostRenderers_mem runMem m objects [] = (m, Inr objects)"
| "ApplyPostRenderers_mem runMem m objects (p # rest) =
     (case runMem p m objects of
        (m', Inl e) \<Rightarrow> (m', Inl e)
      | (m', Inr objects') \<Rightarrow> ApplyPostRenderers_mem runMem m' objects' rest)"

fun renderSources_mem ::
  "(PostRenderer \<Rightarrow> MemStage) \<Rightarrow> (Unstructured \<Rightarrow> string) \<Rightarrow> memory \<Rightarrow> RendererOptions \<Rightarrow>
     sourceHolder list \<Rightarrow> addr list \<Rightarrow> memory \<times> (error + addr list)" where
  "renderSources_mem runMem digest m ro [] allObjects = (m, Inr allObjects)"
| "renderSources_mem runMem digest m ro (holder # rest) allObjects =
     (case ApplySourceSelectors (cells m) (Source holder) (SourceSelectors ro) of
        Inl e \<Rightarrow> (m, Inl (SourceSelectorError e))
      | Inr selected \<Rightarrow>
          if \<not> selected then renderSources_mem runMem digest m ro rest allObjects
          else
            (case copyObjects_mem ro m (Objects (Source holder)) [] of
               (m1, sourceObjects) \<Rightarrow>
                 (let m2 = hashObjects_mem digest ro m1 sourceObjects
                  in case ApplyPostRenderers_mem runMem m2 sourceObjects
                            (Source.PostRenderers (Source holder)) of
                       (m3, Inl e) \<Rightarrow> (m3, Inl (SourcePostRenderError e))
                     | (m3, Inr sourceObjects') \<Rightarrow>
                         renderSources_mem runMem digest m3 ro rest
                           (allObjects @ sourceObjects'))))"

definition Process_mem ::
  "(PostRenderer \<Rightarrow> MemStage) \<Rightarrow> (Unstructured \<Rightarrow> string) \<Rightarrow> memory \<Rightarrow> Renderer \<Rightarrow>
     memory \<times> (error + addr list)" where
  "Process_mem runMem digest m r =
     (case renderSources_mem runMem digest m (opts r) (inputs r) [] of
        (m1, Inl e) \<Rightarrow> (m1, Inl e)
      | (m1, Inr allObjects) \<Rightarrow>
          (let chain = BuildPostRendererChain (Filters (opts r)) (Transformers (opts r))
                         (RendererOptions.PostRenderers (opts r))
           in case ApplyPostRenderers_mem runMem m1 allObjects chain of
                (m2, Inl e) \<Rightarrow> (m2, Inl (RenderPostRenderError e))
              | (m2, Inr result) \<Rightarrow> (m2, Inr result)))"

text \<open>
  The stages a renderer can run, and a stage that keeps to what it is handed: it writes
  only to the manifests of its slice and to cells it allocates, and the manifests it
  returns are among these; it may well change the manifests of its slice in place.
  \<open>modifiedDoc\<close> is \<open>valueDoc\<close> after the caller has changed its key.
\<close>

definition stagesOf :: "Renderer \<Rightarrow> PostRenderer list" where
  "stagesOf r =
     concat (map (\<lambda>holder. Source.PostRenderers (Source holder)) (inputs r)) @
     Filters (opts r) @ Transformers (opts r) @ RendererOptions.PostRenderers (opts r)"

definition keepsToItsSlice :: "MemStage \<Rightarrow> bool" where
  "keepsToItsSlice stage =
     (\<forall>m objects. case stage m objects of
        (m', res) \<Rightarrow>
          nextAddr m \<le> nextAddr m' \<and>
          (\<forall>a<nextAddr m. a \<notin> set objects \<longrightarrow> cells m' a = cells m a) \<and>
          (case res of
             Inl e \<Rightarrow> True
           | Inr objects' \<Rightarrow> set objects' \<subseteq> set objects \<union> {nextAddr m..<nextAddr m'}))"

text \<open>
  A stage that does not keep to its slice: it holds the caller's document at address 0,
  as a closure may, and overwrites it.
\<close>

definition clobbering :: "PostRenderer \<Rightarrow> MemStage" where
  "clobbering p m objects = (m\<lparr>cells := (cells m)(0 := otherDoc)\<rparr>, Inr objects)"

definition modifiedDoc :: Unstructured where
  "modifiedDoc = \<lparr>Object = Some [(''key'', JString ''modified'')]\<rparr>"

text \<open>
  How the memory reading relates to the reading on the elements: a stage on the memory that
  computes what the stage of the options computes, a selector that reads nothing but the
  documents of the source it is asked about, and the stage on the memory every stage of
  the options has when it leaves its input alone and allocates what it returns.
\<close>

definition computes :: "MemStage \<Rightarrow> PostRenderer \<Rightarrow> bool" where
  "computes stage p =
     (\<forall>m objects. case stage m objects of
        (m', res) \<Rightarrow>
          (case res of
             Inl e \<Rightarrow> p (map (cells m) objects) = Inl e
           | Inr objects' \<Rightarrow> p (map (cells m) objects) = Inr (map (cells m') objects')))"

definition readsItsSource :: "SourceSelector \<Rightarrow> bool" where
  "readsItsSource s =
     (\<forall>h h' src. (\<forall>a\<in>set (Objects src). h a = h' a) \<longrightarrow> s h src = s h' src)"

fun allocate :: "memory \<Rightarrow> Unstructured list \<Rightarrow> memory \<times> addr list" where
  "allocate m [] = (m, [])"
| "allocate m (v # vs) =
     (case allocate \<lparr>cells = (cells m)(nextAddr m := v), nextAddr = Suc (nextAddr m)\<rparr> vs of
        (m', cs) \<Rightarrow> (m', nextAddr m # cs))"

definition onCopies :: "PostRenderer \<Rightarrow> MemStage" where
  "onCopies p m objects =
     (case p (map (cells m) objects) of
        Inl e \<Rightarrow> (m, Inl e)
      | Inr vs \<Rightarrow> (case allocate m vs of (m', cs) \<Rightarrow> (m', Inr cs)))"


section \<open>Options: replace and accumulate\<close>

lemma applyOptions_append: "applyOptions (xs @ ys) t = applyOptions ys (applyOptions xs t)"
  by (induction xs arbitrary: t) auto

lemmas With_defs = WithFilter_def WithTransformer_def WithPostRenderer_def
  WithSourceSelector_def WithSourceAnnotations_def WithContentHash_def

lemma functional_Filters: "Filters (ApplyTo (functional s) t) = Filters t @ filtersOf s"
  by (cases s) (simp_all add: With_defs)

lemma functional_Transformers:
  "Transformers (ApplyTo (functional s) t) = Transformers t @ transformersOf s"
  by (cases s) (simp_all add: With_defs)

lemma option_of_PostRenderers:
  "RendererOptions.PostRenderers (ApplyTo (option_of x) t) =
     RendererOptions.PostRenderers t @ postRenderersOf x"
proof (cases x)
  case (Inl v)
  then show ?thesis by (simp add: RendererOptions_ApplyTo_def)
next
  case (Inr s)
  then show ?thesis by (cases s) (simp_all add: With_defs)
qed

lemma option_of_SourceSelectors:
  "SourceSelectors (ApplyTo (option_of x) t) = SourceSelectors t @ sourceSelectorsOf x"
proof (cases x)
  case (Inl v)
  then show ?thesis by (simp add: RendererOptions_ApplyTo_def)
next
  case (Inr s)
  then show ?thesis by (cases s) (simp_all add: With_defs)
qed

lemma functional_list_Filters:
  "Filters (applyOptions (map functional post) t) = Filters t @ concat (map filtersOf post)"
  by (induction post arbitrary: t) (simp_all add: functional_Filters)

lemma functional_list_Transformers:
  "Transformers (applyOptions (map functional post) t) =
     Transformers t @ concat (map transformersOf post)"
  by (induction post arbitrary: t) (simp_all add: functional_Transformers)

lemma option_list_PostRenderers:
  "RendererOptions.PostRenderers (applyOptions (map option_of os) t) =
     RendererOptions.PostRenderers t @ concat (map postRenderersOf os)"
  by (induction os arbitrary: t) (simp_all add: option_of_PostRenderers)

lemma option_list_SourceSelectors:
  "SourceSelectors (applyOptions (map option_of os) t) =
     SourceSelectors t @ concat (map sourceSelectorsOf os)"
  by (induction os arbitrary: t) (simp_all add: option_of_SourceSelectors)

text \<open>
  C3, as stated, fails: \<^verbatim>\<open>WithFilter\<close> appends to the filter list. After
  \<^verbatim>\<open>WithFilter(keepAll)\<close> and \<^verbatim>\<open>WithFilter(dropAll)\<close> the list holds both filters, not only
  the one of the option applied last.
\<close>

theorem with_filter_appends_counterexample:
  "Filters (applyOptions [WithFilter keepAll, WithFilter dropAll] defaultOptions) \<noteq> [dropAll]"
  by (simp add: WithFilter_def defaultOptions_def)

text \<open>
  C3, amended. A struct-based option replaces the filter and transformer lists by its own,
  whatever was applied before it (\<open>pre\<close> is any list of options); each functional option
  \<^verbatim>\<open>WithFilter\<close> or \<^verbatim>\<open>WithTransformer\<close> applied after it appends one element. Without a
  struct-based option the appended elements follow the initial list. The post-renderer and
  source-selector lists are the initial list followed by the contributions of all options,
  struct-based or functional, in the order of application.
\<close>

theorem options_replace_and_accumulate:
  "Filters (applyOptions (pre @ StructOption v # map functional post) t) =
     Filters v @ concat (map filtersOf post) \<and>
   Transformers (applyOptions (pre @ StructOption v # map functional post) t) =
     Transformers v @ concat (map transformersOf post) \<and>
   Filters (applyOptions (map functional post) t) = Filters t @ concat (map filtersOf post) \<and>
   Transformers (applyOptions (map functional post) t) =
     Transformers t @ concat (map transformersOf post) \<and>
   RendererOptions.PostRenderers (applyOptions (map option_of os) t) =
     RendererOptions.PostRenderers t @ concat (map postRenderersOf os) \<and>
   SourceSelectors (applyOptions (map option_of os) t) =
     SourceSelectors t @ concat (map sourceSelectorsOf os)"
  by (simp add: applyOptions_append functional_list_Filters functional_list_Transformers
      option_list_PostRenderers option_list_SourceSelectors RendererOptions_ApplyTo_def)

text \<open>
  C9. Applying a struct-based option sets the filter list, the transformer list and both
  toggles of the target to the fields of the struct. So a struct-based option applied last
  decides both toggles, and one that leaves \<^verbatim>\<open>ContentHash\<close> at its zero value turns off the
  fingerprinting that the defaults turn on.
\<close>

theorem struct_option_overwrites_toggles:
  "Filters (ApplyTo (StructOption v) target) = Filters v \<and>
   Transformers (ApplyTo (StructOption v) target) = Transformers v \<and>
   SourceAnnotations (ApplyTo (StructOption v) target) = SourceAnnotations v \<and>
   ContentHash (ApplyTo (StructOption v) target) = ContentHash v \<and>
   SourceAnnotations (applyOptions (pre @ [StructOption v]) defaultOptions) = SourceAnnotations v \<and>
   ContentHash (applyOptions (pre @ [StructOption v]) defaultOptions) = ContentHash v \<and>
   ContentHash defaultOptions \<and>
   \<not> ContentHash (applyOptions [StructOption (defaultOptions\<lparr>ContentHash := False\<rparr>)] defaultOptions)"
  by (simp add: applyOptions_append RendererOptions_ApplyTo_def defaultOptions_def)

section \<open>Construction and validation\<close>

lemma validateObjects_None:
  "(validateObjects h objs j0 = None) = (\<forall>a\<in>set objs. Object (h a) \<noteq> None)"
  by (induction objs arbitrary: j0) auto

lemma validateObjects_Some:
  "(validateObjects h objs j0 = Some j) =
     (j0 \<le> j \<and> j - j0 < length objs \<and> Object (h (objs ! (j - j0))) = None \<and>
      (\<forall>k<j - j0. Object (h (objs ! k)) \<noteq> None))"
proof (induction objs arbitrary: j0)
  case Nil
  then show ?case by simp
next
  case (Cons a objs)
  show ?case
  proof (cases "Object (h a) = None")
    case True
    show ?thesis
    proof (cases "j = j0")
      case eq: True
      then show ?thesis using True by simp
    next
      case ne: False
      have "\<not> (\<forall>k<j - j0. Object (h ((a # objs) ! k)) \<noteq> None)" if "j0 \<le> j"
      proof -
        have "0 < j - j0" using that ne by simp
        then show ?thesis using True by (intro notI) (drule spec[of _ 0], simp)
      qed
      then show ?thesis using True ne by auto
    qed
  next
    case False
    have "(validateObjects h (a # objs) j0 = Some j) = (validateObjects h objs (Suc j0) = Some j)"
      using False by auto
    also have "\<dots> = (Suc j0 \<le> j \<and> j - Suc j0 < length objs \<and>
        Object (h (objs ! (j - Suc j0))) = None \<and>
        (\<forall>k<j - Suc j0. Object (h (objs ! k)) \<noteq> None))"
      by (rule Cons.IH)
    also have "\<dots> = (j0 \<le> j \<and> j - j0 < length (a # objs) \<and>
        Object (h ((a # objs) ! (j - j0))) = None \<and>
        (\<forall>k<j - j0. Object (h ((a # objs) ! k)) \<noteq> None))"
    proof (cases "j0 < j")
      case True
      then obtain d where d: "j - j0 = Suc d" "j - Suc j0 = d"
        by (metis Suc_diff_Suc)
      show ?thesis
        using True False unfolding d
        by (auto simp: nth_Cons split: nat.splits)
    next
      case False2: False
      then show ?thesis using False by (cases "j = j0") auto
    qed
    finally show ?thesis .
  qed
qed

lemma wrapSources_Inr:
  "(\<exists>holders. wrapSources h ins i0 = Inr holders) =
     (\<forall>src\<in>set ins. \<forall>a\<in>set (Objects src). Object (h a) \<noteq> None)"
proof (induction ins arbitrary: i0)
  case Nil
  then show ?case by simp
next
  case (Cons inp rest)
  show ?case
  proof (cases "validateObjects h (Objects inp) 0")
    case None
    then have ok: "\<forall>a\<in>set (Objects inp). Object (h a) \<noteq> None"
      by (simp only: validateObjects_None)
    have "(\<exists>holders. wrapSources h (inp # rest) i0 = Inr holders) =
        (\<exists>holders. wrapSources h rest (Suc i0) = Inr holders)"
      using None by (cases "wrapSources h rest (Suc i0)") (simp_all add: Validate_def)
    also have "\<dots> = (\<forall>src\<in>set rest. \<forall>a\<in>set (Objects src). Object (h a) \<noteq> None)"
      by (rule Cons.IH)
    finally show ?thesis using ok by (simp del: not_None_eq)
  next
    case (Some j)
    then have "\<not> (\<forall>a\<in>set (Objects inp). Object (h a) \<noteq> None)"
      using validateObjects_None[of h "Objects inp" 0] by simp
    then show ?thesis using Some by (simp add: Validate_def del: not_None_eq)
  qed
qed

lemma wrapSources_holders:
  "wrapSources h ins i0 = Inr holders \<Longrightarrow> holders = map (\<lambda>inp. \<lparr>Source = inp\<rparr>) ins"
  by (induction ins arbitrary: i0 holders)
     (auto simp: Let_def split: option.splits sum.splits)

lemma wrapSources_Inl:
  "(wrapSources h ins i0 = Inl e) =
     (\<exists>i j. e = InvalidSource (i0 + i) j \<and> i < length ins \<and>
        validateObjects h (Objects (ins ! i)) 0 = Some j \<and>
        (\<forall>i'<i. \<forall>a\<in>set (Objects (ins ! i')). Object (h a) \<noteq> None))"
proof (induction ins arbitrary: i0)
  case Nil
  then show ?case by simp
next
  case (Cons inp rest)
  show ?case
  proof (cases "validateObjects h (Objects inp) 0")
    case (Some j)
    have "(wrapSources h (inp # rest) i0 = Inl e) = (e = InvalidSource i0 j)"
      using Some by (auto simp: Validate_def Let_def)
    moreover have "(\<exists>i j'. e = InvalidSource (i0 + i) j' \<and> i < length (inp # rest) \<and>
        validateObjects h (Objects ((inp # rest) ! i)) 0 = Some j' \<and>
        (\<forall>i'<i. \<forall>a\<in>set (Objects ((inp # rest) ! i')). Object (h a) \<noteq> None)) =
        (e = InvalidSource i0 j)"
    proof
      assume "\<exists>i j'. e = InvalidSource (i0 + i) j' \<and> i < length (inp # rest) \<and>
        validateObjects h (Objects ((inp # rest) ! i)) 0 = Some j' \<and>
        (\<forall>i'<i. \<forall>a\<in>set (Objects ((inp # rest) ! i')). Object (h a) \<noteq> None)"
      then obtain i j' where a: "e = InvalidSource (i0 + i) j'" "i < length (inp # rest)"
        "validateObjects h (Objects ((inp # rest) ! i)) 0 = Some j'"
        "\<forall>i'<i. \<forall>a\<in>set (Objects ((inp # rest) ! i')). Object (h a) \<noteq> None" by blast
      have "i = 0"
      proof (rule ccontr)
        assume "i \<noteq> 0"
        then have "\<forall>a\<in>set (Objects inp). Object (h a) \<noteq> None" using a(4) by force
        then have "validateObjects h (Objects inp) 0 = None" by (simp add: validateObjects_None)
        then show False using Some by simp
      qed
      then show "e = InvalidSource i0 j" using a Some by simp
    next
      assume "e = InvalidSource i0 j"
      then show "\<exists>i j'. e = InvalidSource (i0 + i) j' \<and> i < length (inp # rest) \<and>
        validateObjects h (Objects ((inp # rest) ! i)) 0 = Some j' \<and>
        (\<forall>i'<i. \<forall>a\<in>set (Objects ((inp # rest) ! i')). Object (h a) \<noteq> None)"
        using Some by (intro exI[of _ 0] exI[of _ j]) simp
    qed
    ultimately show ?thesis by simp
  next
    case None
    then have ok: "\<forall>a\<in>set (Objects inp). Object (h a) \<noteq> None"
      by (simp add: validateObjects_None)
    have "(wrapSources h (inp # rest) i0 = Inl e) = (wrapSources h rest (Suc i0) = Inl e)"
      using None by (auto simp: Validate_def Let_def split: sum.splits)
    also have "\<dots> = (\<exists>i j. e = InvalidSource (Suc i0 + i) j \<and> i < length rest \<and>
        validateObjects h (Objects (rest ! i)) 0 = Some j \<and>
        (\<forall>i'<i. \<forall>a\<in>set (Objects (rest ! i')). Object (h a) \<noteq> None))"
      by (rule Cons.IH)
    also have "\<dots> = (\<exists>i j. e = InvalidSource (i0 + i) j \<and> i < length (inp # rest) \<and>
        validateObjects h (Objects ((inp # rest) ! i)) 0 = Some j \<and>
        (\<forall>i'<i. \<forall>a\<in>set (Objects ((inp # rest) ! i')). Object (h a) \<noteq> None))"
    proof
      assume "\<exists>i j. e = InvalidSource (Suc i0 + i) j \<and> i < length rest \<and>
        validateObjects h (Objects (rest ! i)) 0 = Some j \<and>
        (\<forall>i'<i. \<forall>a\<in>set (Objects (rest ! i')). Object (h a) \<noteq> None)"
      then obtain i j where a: "e = InvalidSource (Suc i0 + i) j" "i < length rest"
        "validateObjects h (Objects (rest ! i)) 0 = Some j"
        "\<forall>i'<i. \<forall>a\<in>set (Objects (rest ! i')). Object (h a) \<noteq> None" by blast
      have "\<forall>i'<Suc i. \<forall>a\<in>set (Objects ((inp # rest) ! i')). Object (h a) \<noteq> None"
        using a(4) ok by (auto simp: nth_Cons split: nat.splits)
      then show "\<exists>i j. e = InvalidSource (i0 + i) j \<and> i < length (inp # rest) \<and>
        validateObjects h (Objects ((inp # rest) ! i)) 0 = Some j \<and>
        (\<forall>i'<i. \<forall>a\<in>set (Objects ((inp # rest) ! i')). Object (h a) \<noteq> None)"
        using a(1,2,3) by (intro exI[of _ "Suc i"] exI[of _ j]) simp
    next
      assume "\<exists>i j. e = InvalidSource (i0 + i) j \<and> i < length (inp # rest) \<and>
        validateObjects h (Objects ((inp # rest) ! i)) 0 = Some j \<and>
        (\<forall>i'<i. \<forall>a\<in>set (Objects ((inp # rest) ! i')). Object (h a) \<noteq> None)"
      then obtain i j where a: "e = InvalidSource (i0 + i) j" "i < length (inp # rest)"
        "validateObjects h (Objects ((inp # rest) ! i)) 0 = Some j"
        "\<forall>i'<i. \<forall>a\<in>set (Objects ((inp # rest) ! i')). Object (h a) \<noteq> None" by blast
      have "i \<noteq> 0" using a(3) None by (cases i) auto
      then obtain d where d: "i = Suc d" by (cases i) auto
      have "\<forall>i'<d. \<forall>a\<in>set (Objects (rest ! i')). Object (h a) \<noteq> None"
      proof (intro allI impI)
        fix i' assume "i' < d"
        then have "Suc i' < i" using d by simp
        then have "\<forall>a\<in>set (Objects ((inp # rest) ! Suc i')). Object (h a) \<noteq> None"
          using a(4) by blast
        then show "\<forall>a\<in>set (Objects (rest ! i')). Object (h a) \<noteq> None" by simp
      qed
      then show "\<exists>i j. e = InvalidSource (Suc i0 + i) j \<and> i < length rest \<and>
        validateObjects h (Objects (rest ! i)) 0 = Some j \<and>
        (\<forall>i'<i. \<forall>a\<in>set (Objects (rest ! i')). Object (h a) \<noteq> None)"
        using a(1,2,3) d by (intro exI[of _ d] exI[of _ j]) simp
    qed
    finally show ?thesis .
  qed
qed

lemma renderSources_not_InvalidSource:
  "renderSources digest h ro holders acc \<noteq> Inl (InvalidSource i j)"
  by (induction holders arbitrary: acc) (auto simp: Let_def split: sum.splits)

lemma Process_not_InvalidSource: "Process digest h r \<noteq> Inl (InvalidSource i j)"
  using renderSources_not_InvalidSource[of digest h "opts r" "inputs r" "[]" i j]
  by (auto simp: Process_def Let_def split: sum.splits)


text \<open>
  C5. Construction fails exactly when some source holds a document with a nil body. The
  error is \<open>InvalidSource i j\<close>, where \<open>i\<close> is the least index of a source with such a
  document and \<open>j\<close> the least index of such a document in it. A failure carries no renderer
  (the result is the error alone); a success is the renderer that holds the sources in
  their order and the options applied to the defaults. \<^verbatim>\<open>Process\<close> never reports
  \<open>InvalidSource\<close>: it does not validate.
\<close>

theorem New_fails_exactly_on_nil_body:
  "((\<exists>e. New h ins options = Inl e) =
      (\<exists>src\<in>set ins. \<exists>a\<in>set (Objects src). Object (h a) = None)) \<and>
   ((New h ins options = Inl e) =
      (\<exists>i j. e = InvalidSource i j \<and> i < length ins \<and> j < length (Objects (ins ! i)) \<and>
         Object (h (Objects (ins ! i) ! j)) = None \<and>
         (\<forall>k<j. Object (h (Objects (ins ! i) ! k)) \<noteq> None) \<and>
         (\<forall>i'<i. \<forall>a\<in>set (Objects (ins ! i')). Object (h a) \<noteq> None))) \<and>
   ((\<exists>r. New h ins options = Inr r) =
      (New h ins options =
         Inr \<lparr>inputs = map (\<lambda>inp. \<lparr>Source = inp\<rparr>) ins,
              opts = applyOptions options defaultOptions\<rparr>)) \<and>
   Process digest h' r \<noteq> Inl (InvalidSource i j)"
proof (intro conjI)
  have inr: "(\<exists>r. New h ins options = Inr r) = (\<exists>holders. wrapSources h ins 0 = Inr holders)"
    by (cases "wrapSources h ins 0") (simp_all add: New_def)
  have "(\<exists>e. New h ins options = Inl e) = (\<not> (\<exists>r. New h ins options = Inr r))"
    by (cases "New h ins options") simp_all
  then show "(\<exists>e. New h ins options = Inl e) =
      (\<exists>src\<in>set ins. \<exists>a\<in>set (Objects src). Object (h a) = None)"
    unfolding inr wrapSources_Inr by (simp del: not_None_eq)
  have "(New h ins options = Inl e) = (wrapSources h ins 0 = Inl e)"
    by (cases "wrapSources h ins 0") (simp_all add: New_def)
  then show "(New h ins options = Inl e) =
      (\<exists>i j. e = InvalidSource i j \<and> i < length ins \<and> j < length (Objects (ins ! i)) \<and>
         Object (h (Objects (ins ! i) ! j)) = None \<and>
         (\<forall>k<j. Object (h (Objects (ins ! i) ! k)) \<noteq> None) \<and>
         (\<forall>i'<i. \<forall>a\<in>set (Objects (ins ! i')). Object (h a) \<noteq> None))"
    unfolding wrapSources_Inl validateObjects_Some by (simp del: not_None_eq)
  show "(\<exists>r. New h ins options = Inr r) =
      (New h ins options =
         Inr \<lparr>inputs = map (\<lambda>inp. \<lparr>Source = inp\<rparr>) ins,
              opts = applyOptions options defaultOptions\<rparr>)"
    by (cases "wrapSources h ins 0") (auto simp: New_def dest: wrapSources_holders)
  show "Process digest h' r \<noteq> Inl (InvalidSource i j)"
    by (rule Process_not_InvalidSource)
qed


theorem New_fails_exactly_on_nil_body_witness:
  "New callerStore [plainSource [0], plainSource [0, 1]] [] = Inl (InvalidSource 1 1) \<and>
   (\<exists>r. New callerStore [plainSource [0], plainSource []] [WithContentHash False] = Inr r)"
proof
  let ?ins = "[plainSource [0], plainSource [0, 1]]"
  have "InvalidSource 1 1 = InvalidSource 1 1 \<and> 1 < length ?ins \<and>
      1 < length (Objects (?ins ! 1)) \<and>
      Object (callerStore (Objects (?ins ! 1) ! 1)) = None \<and>
      (\<forall>k<1. Object (callerStore (Objects (?ins ! 1) ! k)) \<noteq> None) \<and>
      (\<forall>i'<1. \<forall>a\<in>set (Objects (?ins ! i')). Object (callerStore a) \<noteq> None)"
    by (simp add: plainSource_def callerStore_def valueDoc_def nilDoc_def)
  then have "\<exists>i j. InvalidSource 1 1 = InvalidSource i j \<and> i < length ?ins \<and>
      j < length (Objects (?ins ! i)) \<and>
      Object (callerStore (Objects (?ins ! i) ! j)) = None \<and>
      (\<forall>k<j. Object (callerStore (Objects (?ins ! i) ! k)) \<noteq> None) \<and>
      (\<forall>i'<i. \<forall>a\<in>set (Objects (?ins ! i')). Object (callerStore a) \<noteq> None)"
    by (intro exI[of _ 1])
  then show "New callerStore ?ins [] = Inl (InvalidSource 1 1)"
    using New_fails_exactly_on_nil_body[of callerStore ?ins "[]" "InvalidSource 1 1",
        THEN conjunct2, THEN conjunct1]
    by (simp only:)
next
  let ?ins = "[plainSource [0], plainSource []]"
  have "\<not> (\<exists>src\<in>set ?ins. \<exists>a\<in>set (Objects src). Object (callerStore a) = None)"
    by (simp add: plainSource_def callerStore_def valueDoc_def)
  then have "\<not> (\<exists>e. New callerStore ?ins [WithContentHash False] = Inl e)"
    using New_fails_exactly_on_nil_body[of callerStore ?ins "[WithContentHash False]",
        THEN conjunct1]
    by simp
  then show "\<exists>r. New callerStore ?ins [WithContentHash False] = Inr r"
    by (cases "New callerStore ?ins [WithContentHash False]") auto
qed

section \<open>The structure of Process\<close>

lemma renderSources_step:
  "renderSources digest h ro (holder # rest) acc =
     (case ApplySourceSelectors h (Source holder) (SourceSelectors ro) of
        Inl e \<Rightarrow> Inl (SourceSelectorError e)
      | Inr selected \<Rightarrow>
          if \<not> selected then renderSources digest h ro rest acc
          else (case renderSource digest h ro holder of
                  Inl e \<Rightarrow> Inl (SourcePostRenderError e)
                | Inr objects \<Rightarrow> renderSources digest h ro rest (acc @ objects)))"
  by (simp add: renderSource_def Let_def split: sum.splits)

lemma renderSources_acc:
  "renderSources digest h ro holders acc =
     (case renderSources digest h ro holders [] of
        Inl e \<Rightarrow> Inl e
      | Inr objects \<Rightarrow> Inr (acc @ objects))"
proof (induction holders arbitrary: acc)
  case Nil
  then show ?case by simp
next
  case (Cons holder rest)
  have rest_acc: "renderSources digest h ro rest (xs @ ys) =
      (case renderSources digest h ro rest ys of
         Inl e \<Rightarrow> Inl e
       | Inr objects \<Rightarrow> Inr (xs @ objects))" for xs ys
  proof -
    have "renderSources digest h ro rest (xs @ ys) =
        (case renderSources digest h ro rest [] of
           Inl e \<Rightarrow> Inl e
         | Inr objects \<Rightarrow> Inr ((xs @ ys) @ objects))"
      by (rule Cons.IH)
    moreover have "renderSources digest h ro rest ys =
        (case renderSources digest h ro rest [] of
           Inl e \<Rightarrow> Inl e
         | Inr objects \<Rightarrow> Inr (ys @ objects))"
      by (rule Cons.IH)
    ultimately show ?thesis
      by (cases "renderSources digest h ro rest []") simp_all
  qed
  show ?case
  proof (cases "ApplySourceSelectors h (Source holder) (SourceSelectors ro)")
    case (Inl e)
    then show ?thesis by (simp add: renderSources_step del: renderSources.simps)
  next
    case (Inr selected)
    show ?thesis
    proof (cases selected)
      case False
      then show ?thesis
        using Inr rest_acc[of acc "[]"]
        by (simp add: renderSources_step del: renderSources.simps)
    next
      case True
      show ?thesis
      proof (cases "renderSource digest h ro holder")
        case (Inl e)
        then show ?thesis
          using Inr True by (simp add: renderSources_step del: renderSources.simps)
      next
        case inr2: (Inr objects)
        then show ?thesis
          using Inr True rest_acc[of acc objects]
          by (simp add: renderSources_step del: renderSources.simps)
      qed
    qed
  qed
qed

lemma renderSources_append:
  "renderSources digest h ro (xs @ ys) acc =
     (case renderSources digest h ro xs acc of
        Inl e \<Rightarrow> Inl e
      | Inr acc' \<Rightarrow> renderSources digest h ro ys acc')"
proof (induction xs arbitrary: acc)
  case Nil
  then show ?case by simp
next
  case (Cons holder rest)
  show ?case
    by (simp add: renderSources_step Cons.IH del: renderSources.simps split: sum.splits)
qed

lemma ApplySourceSelectors_append:
  "ApplySourceSelectors h src (pre @ post) =
     (case ApplySourceSelectors h src pre of
        Inl e \<Rightarrow> Inl e
      | Inr ok \<Rightarrow> if \<not> ok then Inr False else ApplySourceSelectors h src post)"
  by (induction pre) (auto split: sum.splits)

lemma ApplySourceSelectors_all_accept:
  "(\<forall>s\<in>set pre. s h src = Inr True) \<Longrightarrow> ApplySourceSelectors h src pre = Inr True"
  by (induction pre) auto

lemma ApplyPostRenderers_append:
  "ApplyPostRenderers objects (ps @ qs) =
     (case ApplyPostRenderers objects ps of
        Inl e \<Rightarrow> Inl e
      | Inr objects' \<Rightarrow> ApplyPostRenderers objects' qs)"
  by (induction ps arbitrary: objects) (auto split: sum.splits)

lemma Process_tagged:
  "Process digest h r =
     (case renderSources digest h (opts r) (inputs r) [] of
        Inl e \<Rightarrow> Inl e
      | Inr merged \<Rightarrow>
          tagged RenderPostRenderError
            (ApplyPostRenderers merged
               (Filters (opts r) @ Transformers (opts r) @ RendererOptions.PostRenderers (opts r))))"
  by (simp add: Process_def tagged_def BuildPostRendererChain_def Let_def split: sum.splits)


lemma renderSources_cons:
  "renderSources digest h ro (holder # rest) [] =
     (case ApplySourceSelectors h (Source holder) (SourceSelectors ro) of
        Inl e \<Rightarrow> Inl (SourceSelectorError e)
      | Inr selected \<Rightarrow>
          if \<not> selected then renderSources digest h ro rest []
          else (case renderSource digest h ro holder of
                  Inl e \<Rightarrow> Inl (SourcePostRenderError e)
                | Inr objects \<Rightarrow>
                    (case renderSources digest h ro rest [] of
                       Inl e \<Rightarrow> Inl e
                     | Inr others \<Rightarrow> Inr (objects @ others))))"
proof (cases "ApplySourceSelectors h (Source holder) (SourceSelectors ro)")
  case (Inl e)
  then show ?thesis by (simp add: renderSources_step del: renderSources.simps)
next
  case (Inr selected)
  show ?thesis
  proof (cases "renderSource digest h ro holder")
    case (Inl e)
    then show ?thesis using Inr by (simp add: renderSources_step del: renderSources.simps)
  next
    case inr2: (Inr objects)
    have "renderSources digest h ro rest objects =
        (case renderSources digest h ro rest [] of
           Inl e \<Rightarrow> Inl e
         | Inr others \<Rightarrow> Inr (objects @ others))"
      by (rule renderSources_acc)
    then show ?thesis
      using Inr inr2 by (simp only: renderSources_step append_Nil sum.case)
  qed
qed

lemma renderSources_merged:
  "renderSources digest h ro holders [] = Inr merged \<Longrightarrow>
     merged = concat (map (sourceOutput digest h ro) (filter (accepted h ro) holders))"
proof (induction holders arbitrary: merged)
  case Nil
  then show ?case by simp
next
  case (Cons holder rest)
  from Cons.prems show ?case
    by (auto simp: renderSources_cons accepted_def sourceOutput_def
        simp del: renderSources.simps dest: Cons.IH split: sum.splits if_splits)
qed

lemma renderSources_succeeds:
  "(\<exists>merged. renderSources digest h ro holders [] = Inr merged) =
     (\<forall>holder\<in>set holders. rejected h ro holder \<or>
        (accepted h ro holder \<and> (\<exists>objects. renderSource digest h ro holder = Inr objects)))"
proof (induction holders)
  case Nil
  then show ?case by simp
next
  case (Cons holder rest)
  show ?case
  proof (cases "ApplySourceSelectors h (Source holder) (SourceSelectors ro)")
    case (Inl e)
    then show ?thesis
      by (simp add: renderSources_cons accepted_def rejected_def del: renderSources.simps)
  next
    case (Inr selected)
    show ?thesis
    proof (cases selected)
      case False
      then show ?thesis
        using Inr Cons.IH
        by (simp add: renderSources_cons accepted_def rejected_def del: renderSources.simps)
    next
      case True
      show ?thesis
      proof (cases "renderSource digest h ro holder")
        case (Inl e)
        then show ?thesis
          using Inr True
          by (simp add: renderSources_cons accepted_def rejected_def del: renderSources.simps)
      next
        case inr2: (Inr objects)
        have "(\<exists>merged. renderSources digest h ro (holder # rest) [] = Inr merged) =
            (\<exists>others. renderSources digest h ro rest [] = Inr others)"
          using Inr True inr2
          by (cases "renderSources digest h ro rest []")
             (simp_all add: renderSources_cons del: renderSources.simps)
        then show ?thesis
          using Inr True inr2 Cons.IH
          by (simp add: accepted_def rejected_def del: renderSources.simps)
      qed
    qed
  qed
qed

lemma renderSources_no_stages:
  "SourceSelectors ro = [] \<Longrightarrow> (\<forall>holder\<in>set holders. Source.PostRenderers (Source holder) = []) \<Longrightarrow>
     renderSources digest h ro holders [] =
       Inr (concat (map (\<lambda>holder. hashObjects digest ro
              (map (copyObject h ro) (Objects (Source holder)))) holders))"
proof (induction holders)
  case Nil
  then show ?case by simp
next
  case (Cons holder rest)
  then show ?case
    by (simp add: renderSources_cons renderSource_def del: renderSources.simps)
qed

lemma hashObjects_concat:
  "hashObjects digest ro (concat xss) = concat (map (hashObjects digest ro) xss)"
  by (cases "ContentHash ro") (simp_all add: hashObjects_def[abs_def] map_concat)

text \<open>
  What the sources decide about the two variants: with no source selectors and no
  per-source post-renderers, the sequence the simpler variant hands to \<^verbatim>\<open>pipeline.Apply\<close>
  is the merged sequence of the richer variant. Hashing per source or after the merge gives
  the same objects.
\<close>

lemma variants_hand_over_same_objects:
  assumes "SourceSelectors (opts r) = []"
    and "\<forall>holder\<in>set (inputs r). Source.PostRenderers (Source holder) = []"
  shows "\<exists>merged. renderSources digest h (opts r) (inputs r) [] = Inr merged \<and>
    Process_simple pipelineApply digest h r =
      (case pipelineApply merged (Filters (opts r)) (Transformers (opts r)) of
         Inl e \<Rightarrow> Inl (ApplyError e)
       | Inr transformed \<Rightarrow> Inr transformed)"
proof -
  let ?all = "concat (map (\<lambda>holder. hashObjects digest (opts r)
              (map (copyObject h (opts r)) (Objects (Source holder)))) (inputs r))"
  have merged: "renderSources digest h (opts r) (inputs r) [] = Inr ?all"
    using assms by (simp add: renderSources_no_stages)
  have "hashObjects digest (opts r)
      (concat (map (\<lambda>holder. map (copyObject h (opts r)) (Objects (Source holder))) (inputs r))) =
      ?all"
    by (simp add: hashObjects_concat comp_def)
  then have "Process_simple pipelineApply digest h r =
      (case pipelineApply ?all (Filters (opts r)) (Transformers (opts r)) of
         Inl e \<Rightarrow> Inl (ApplyError e)
       | Inr transformed \<Rightarrow> Inr transformed)"
    by (simp add: Process_simple_def Let_def)
  then show ?thesis using merged by blast
qed

text \<open>
  What the sources decide about the content hash: with both toggles on, \<^verbatim>\<open>Process\<close> hands
  \<^verbatim>\<open>types.SetContentHash\<close> the copy that already carries the provenance annotation. Whether the
  digest covers that annotation is decided by the digest function.
\<close>

lemma digest_is_taken_after_annotation:
  "SourceAnnotations ro \<Longrightarrow> ContentHash ro \<Longrightarrow>
   hashObjects digest ro (map (copyObject h ro) objs) =
     map (\<lambda>obj. SetContentHash digest (addSourceAnnotations (DeepCopy h obj))) objs"
  by (simp add: hashObjects_def copyObject_def)

text \<open>
  C6. The loop over the sources succeeds exactly when every source is rejected by the
  selectors, or accepted with a per-source chain that succeeds. The merged sequence is
  then the concatenation, in source order, of the per-source sequences of the accepted
  sources (a rejected source contributes nothing), and it is this sequence that the
  renderer-level chain receives.
\<close>

theorem merged_sequence_is_concatenation:
  "((\<exists>merged. renderSources digest h (opts r) (inputs r) [] = Inr merged) =
      (\<forall>holder\<in>set (inputs r). rejected h (opts r) holder \<or>
         (accepted h (opts r) holder \<and>
          (\<exists>objects. renderSource digest h (opts r) holder = Inr objects)))) \<and>
   (renderSources digest h (opts r) (inputs r) [] = Inr merged \<longrightarrow>
      merged = concat (map (sourceOutput digest h (opts r))
                 (filter (accepted h (opts r)) (inputs r))) \<and>
      Process digest h r =
        tagged RenderPostRenderError
          (ApplyPostRenderers merged
             (BuildPostRendererChain (Filters (opts r)) (Transformers (opts r))
                (RendererOptions.PostRenderers (opts r)))))"
  using renderSources_succeeds[of digest h "opts r" "inputs r"]
    renderSources_merged[of digest h "opts r" "inputs r" merged]
  by (simp add: Process_tagged BuildPostRendererChain_def)

text \<open>
  C7. The renderer-level chain is the filters, then the transformers, then the
  post-renderers. \<^verbatim>\<open>Process\<close> applies it once, to the merged sequence; the stages run in
  order, each on the output of the one before; the first stage that fails ends the run, and
  \<^verbatim>\<open>Process\<close> returns its error tagged as a renderer post-renderer error.
\<close>

theorem renderer_level_chain_order:
  "BuildPostRendererChain fs ts ps = fs @ ts @ ps \<and>
   (renderSources digest h (opts r) (inputs r) [] = Inr merged \<longrightarrow>
      Process digest h r =
        (case ApplyPostRenderers merged
                (Filters (opts r) @ Transformers (opts r) @ RendererOptions.PostRenderers (opts r)) of
           Inl e \<Rightarrow> Inl (RenderPostRenderError e)
         | Inr result \<Rightarrow> Inr result)) \<and>
   ApplyPostRenderers objects (fs @ ts @ ps) =
     (case ApplyPostRenderers objects fs of
        Inl e \<Rightarrow> Inl e
      | Inr kept \<Rightarrow>
          (case ApplyPostRenderers kept ts of
             Inl e \<Rightarrow> Inl e
           | Inr changed \<Rightarrow> ApplyPostRenderers changed ps)) \<and>
   (ApplyPostRenderers objects before = Inr mid \<and> p mid = Inr next_objects \<longrightarrow>
      ApplyPostRenderers objects (before @ p # after) = ApplyPostRenderers next_objects after) \<and>
   (ApplyPostRenderers objects before = Inr mid \<and> p mid = Inl e \<longrightarrow>
      ApplyPostRenderers objects (before @ p # after) = Inl e)"
  by (auto simp: BuildPostRendererChain_def Process_tagged tagged_def ApplyPostRenderers_append
      split: sum.splits)

text \<open>
  C4. The selectors of a source run in order: when all before one accept and it returns
  false, the source is rejected whatever the later selectors would do; when it fails, its
  error is the result; when all accept, the source is accepted. A rejected source is
  skipped: the run is the run without it, so nothing of it is copied, annotated, hashed or
  post-rendered. When the sources before have been rendered and the selectors of a source
  fail, \<^verbatim>\<open>Process\<close> returns that error, tagged as a source selector error, and no objects.
\<close>

theorem selector_chain_short_circuit:
  "((\<forall>s\<in>set pre. s h src = Inr True) \<and> sel h src = Inr False \<longrightarrow>
      ApplySourceSelectors h src (pre @ sel # post) = Inr False) \<and>
   ((\<forall>s\<in>set pre. s h src = Inr True) \<and> sel h src = Inl e \<longrightarrow>
      ApplySourceSelectors h src (pre @ sel # post) = Inl e) \<and>
   ((\<forall>s\<in>set pre. s h src = Inr True) \<longrightarrow> ApplySourceSelectors h src pre = Inr True) \<and>
   (rejected h ro holder \<longrightarrow>
      renderSources digest h ro (before @ holder # after) acc =
        renderSources digest h ro (before @ after) acc) \<and>
   (renderSources digest h ro before [] = Inr done_objects \<and>
    ApplySourceSelectors h (Source holder) (SourceSelectors ro) = Inl e \<longrightarrow>
      Process digest h \<lparr>inputs = before @ holder # after, opts = ro\<rparr> =
        Inl (SourceSelectorError e))"
proof (intro conjI impI)
  assume "(\<forall>s\<in>set pre. s h src = Inr True) \<and> sel h src = Inr False"
  then show "ApplySourceSelectors h src (pre @ sel # post) = Inr False"
    by (simp add: ApplySourceSelectors_append ApplySourceSelectors_all_accept)
next
  assume "(\<forall>s\<in>set pre. s h src = Inr True) \<and> sel h src = Inl e"
  then show "ApplySourceSelectors h src (pre @ sel # post) = Inl e"
    by (simp add: ApplySourceSelectors_append ApplySourceSelectors_all_accept)
next
  assume "\<forall>s\<in>set pre. s h src = Inr True"
  then show "ApplySourceSelectors h src pre = Inr True"
    by (rule ApplySourceSelectors_all_accept)
next
  assume "rejected h ro holder"
  then show "renderSources digest h ro (before @ holder # after) acc =
      renderSources digest h ro (before @ after) acc"
    by (simp add: renderSources_append renderSources_step rejected_def
        del: renderSources.simps split: sum.splits)
next
  assume "renderSources digest h ro before [] = Inr done_objects \<and>
    ApplySourceSelectors h (Source holder) (SourceSelectors ro) = Inl e"
  then show "Process digest h \<lparr>inputs = before @ holder # after, opts = ro\<rparr> =
      Inl (SourceSelectorError e)"
    by (simp add: Process_tagged renderSources_append renderSources_step
        del: renderSources.simps)
qed

subsection \<open>Nil and empty slices\<close>

lemma ApplyPostRenderers_slice_elems:
  assumes "\<And>p objects. map_sum id elems (run p objects) = p (elems objects)"
  shows "map_sum id elems (ApplyPostRenderers_slice run objects ps) =
    ApplyPostRenderers (elems objects) ps"
proof (induction ps arbitrary: objects)
  case Nil
  then show ?case by simp
next
  case (Cons p rest)
  show ?case
  proof (cases "run p objects")
    case (Inl e)
    then show ?thesis using assms[of p objects, symmetric] by simp
  next
    case (Inr objects')
    then show ?thesis using assms[of p objects, symmetric] Cons.IH[of objects'] by simp
  qed
qed

lemma elems_append_slice: "elems (append_slice s t) = elems s @ elems t"
  by (cases s) simp_all

lemma renderSources_slice_elems:
  assumes "\<And>p objects. map_sum id elems (run p objects) = p (elems objects)"
  shows "map_sum id elems (renderSources_slice run digest h ro holders allObjects) =
    renderSources digest h ro holders (elems allObjects)"
proof (induction holders arbitrary: allObjects)
  case Nil
  then show ?case by simp
next
  case (Cons holder rest)
  let ?src = "Slice (hashObjects digest ro (map (copyObject h ro) (Objects (Source holder))))"
  show ?case
  proof (cases "ApplySourceSelectors h (Source holder) (SourceSelectors ro)")
    case (Inl e)
    then show ?thesis by simp
  next
    case (Inr selected)
    show ?thesis
    proof (cases selected)
      case False
      then show ?thesis using Inr Cons.IH[of allObjects] by simp
    next
      case True
      show ?thesis
      proof (cases "ApplyPostRenderers_slice run ?src (Source.PostRenderers (Source holder))")
        case (Inl e)
        then show ?thesis
          using Inr True
            ApplyPostRenderers_slice_elems[of run ?src "Source.PostRenderers (Source holder)",
              OF assms, symmetric]
          by (simp add: make_slice_def)
      next
        case (Inr sourceObjects')
        then show ?thesis
          using \<open>ApplySourceSelectors h (Source holder) (SourceSelectors ro) = Inr selected\<close> True
            ApplyPostRenderers_slice_elems[of run ?src "Source.PostRenderers (Source holder)",
              OF assms, symmetric]
            Cons.IH[of "append_slice allObjects sourceObjects'"]
          by (simp add: make_slice_def elems_append_slice)
      qed
    qed
  qed
qed

text \<open>
  The two readings of \<^verbatim>\<open>Process\<close> agree: when every stage on slices returns the elements its
  function on the elements gives, the elements of the slice \<open>Process_slice\<close> returns are the
  list \<open>Process\<close> returns, and the two fail with the same error.
\<close>

lemma Process_slice_elems:
  assumes "\<And>p objects. map_sum id elems (run p objects) = p (elems objects)"
  shows "map_sum id elems (Process_slice run digest h r) = Process digest h r"
proof (cases "renderSources_slice run digest h (opts r) (inputs r) make_slice")
  case (Inl e)
  then show ?thesis
    using renderSources_slice_elems[of run digest h "opts r" "inputs r" make_slice, OF assms, symmetric]
    by (simp add: Process_slice_def Process_def make_slice_def)
next
  case (Inr allObjects)
  let ?chain = "BuildPostRendererChain (Filters (opts r)) (Transformers (opts r))
                         (RendererOptions.PostRenderers (opts r))"
  have merged: "renderSources digest h (opts r) (inputs r) [] = Inr (elems allObjects)"
    using Inr renderSources_slice_elems[of run digest h "opts r" "inputs r" make_slice, OF assms, symmetric]
    by (simp add: make_slice_def)
  show ?thesis
  proof (cases "ApplyPostRenderers_slice run allObjects ?chain")
    case (Inl e)
    then show ?thesis
      using Inr merged ApplyPostRenderers_slice_elems[of run allObjects ?chain, OF assms, symmetric]
      by (simp add: Process_slice_def Process_def)
  next
    case result: (Inr result)
    then show ?thesis
      using Inr merged ApplyPostRenderers_slice_elems[of run allObjects ?chain, OF assms, symmetric]
      by (simp add: Process_slice_def Process_def)
  qed
qed

lemma append_slice_nothing: "elems t = [] \<Longrightarrow> append_slice (Slice xs) t = Slice xs"
  by simp

lemma renderSources_slice_all_empty:
  "(\<forall>holder\<in>set holders. rejected h ro holder \<or>
      (accepted h ro holder \<and> yieldsNothing (renderSource_slice run digest h ro holder))) \<Longrightarrow>
   renderSources_slice run digest h ro holders (Slice xs) = Inr (Slice xs)"
proof (induction holders)
  case Nil
  then show ?case by simp
next
  case (Cons holder rest)
  then have rest: "renderSources_slice run digest h ro rest (Slice xs) = Inr (Slice xs)"
    by simp
  from Cons.prems have "rejected h ro holder \<or>
      (accepted h ro holder \<and> yieldsNothing (renderSource_slice run digest h ro holder))"
    by simp
  then show ?case
  proof
    assume "rejected h ro holder"
    then show ?thesis using rest by (simp add: rejected_def)
  next
    assume acc: "accepted h ro holder \<and>
      yieldsNothing (renderSource_slice run digest h ro holder)"
    then obtain t where t: "renderSource_slice run digest h ro holder = Inr t" "elems t = []"
      by (auto simp: yieldsNothing_def split: sum.splits)
    then show ?thesis
      using acc rest
      by (simp add: accepted_def renderSource_slice_def make_slice_def)
  qed
qed

text \<open>
  C8, amended. When every source is rejected or yields a slice without elements (a source
  with no objects and no post-renderers does; so does an empty list of sources), \<^verbatim>\<open>Process\<close>
  hands the empty, non-nil slice of \<^verbatim>\<open>make\<close> to the renderer-level chain and returns what the
  chain returns on it: that same empty, non-nil slice and no error when there is no
  renderer-level stage. This holds whatever the stages are as functions on slices, also
  when a per-source stage returns nil.
\<close>

theorem empty_input_reaches_chain_empty:
  "((\<forall>holder\<in>set (inputs r). rejected h (opts r) holder \<or>
       (accepted h (opts r) holder \<and>
        yieldsNothing (renderSource_slice run digest h (opts r) holder))) \<longrightarrow>
      Process_slice run digest h r =
        tagged_slice RenderPostRenderError
          (ApplyPostRenderers_slice run (Slice [])
             (Filters (opts r) @ Transformers (opts r) @ RendererOptions.PostRenderers (opts r))) \<and>
      (Filters (opts r) = [] \<and> Transformers (opts r) = [] \<and>
       RendererOptions.PostRenderers (opts r) = [] \<longrightarrow>
         Process_slice run digest h r = Inr (Slice []))) \<and>
   (Objects (Source holder) = [] \<and> Source.PostRenderers (Source holder) = [] \<longrightarrow>
      renderSource_slice run digest h ro holder = Inr (Slice []))"
proof (intro conjI impI)
  assume empty: "\<forall>holder\<in>set (inputs r). rejected h (opts r) holder \<or>
       (accepted h (opts r) holder \<and>
        yieldsNothing (renderSource_slice run digest h (opts r) holder))"
  then have merged: "renderSources_slice run digest h (opts r) (inputs r) make_slice =
      Inr (Slice [])"
    unfolding make_slice_def by (rule renderSources_slice_all_empty)
  show chain: "Process_slice run digest h r =
        tagged_slice RenderPostRenderError
          (ApplyPostRenderers_slice run (Slice [])
             (Filters (opts r) @ Transformers (opts r) @ RendererOptions.PostRenderers (opts r)))"
    by (simp add: Process_slice_def merged BuildPostRendererChain_def tagged_slice_def)
  assume none: "Filters (opts r) = [] \<and> Transformers (opts r) = [] \<and>
       RendererOptions.PostRenderers (opts r) = []"
  show "Process_slice run digest h r = Inr (Slice [])"
    using none by (simp add: chain tagged_slice_def)
next
  assume "Objects (Source holder) = [] \<and> Source.PostRenderers (Source holder) = []"
  then show "renderSource_slice run digest h ro holder = Inr (Slice [])"
    by (simp add: renderSource_slice_def hashObjects_def)
qed

subsection \<open>What Process writes to\<close>

lemma copyObjects_mem_frame:
  "copyObjects_mem ro m objs sourceObjects = (m', sourceObjects') \<Longrightarrow>
   nextAddr m \<le> nextAddr m' \<and> (\<forall>a<nextAddr m. cells m' a = cells m a) \<and>
   set sourceObjects' \<subseteq> set sourceObjects \<union> {nextAddr m..<nextAddr m'}"
proof (induction objs arbitrary: m sourceObjects)
  case Nil
  then show ?case by simp
next
  case (Cons obj rest)
  let ?m1 = "fst (DeepCopy_mem m obj)"
  let ?m2 = "if SourceAnnotations ro then addSourceAnnotations_mem ?m1 (nextAddr m) else ?m1"
  have step: "copyObjects_mem ro ?m2 rest (sourceObjects @ [nextAddr m]) = (m', sourceObjects')"
    using Cons.prems by (cases "SourceAnnotations ro") (simp_all add: DeepCopy_mem_def Let_def)
  have m2: "nextAddr ?m2 = Suc (nextAddr m)" "\<forall>a<nextAddr m. cells ?m2 a = cells m a"
    by (simp_all add: DeepCopy_mem_def addSourceAnnotations_mem_def)
  from Cons.IH[OF step] m2 show ?case by auto
qed

lemma setHashes_mem_frame:
  "nextAddr (setHashes_mem digest m objs) = nextAddr m \<and>
   (\<forall>a. a \<notin> set objs \<longrightarrow> cells (setHashes_mem digest m objs) a = cells m a)"
proof (induction objs arbitrary: m)
  case Nil
  then show ?case by simp
next
  case (Cons obj rest)
  show ?case using Cons.IH[of "SetContentHash_mem digest m obj"]
    by (simp add: SetContentHash_mem_def)
qed

lemma hashObjects_mem_frame:
  "nextAddr (hashObjects_mem digest ro m objs) = nextAddr m \<and>
   (\<forall>a. a \<notin> set objs \<longrightarrow> cells (hashObjects_mem digest ro m objs) a = cells m a)"
  using setHashes_mem_frame[of digest m objs] by (simp add: hashObjects_mem_def)

lemma interval_chain:
  fixes a b c :: nat
  assumes "A \<subseteq> B \<union> {b..<c}" and "B \<subseteq> C \<union> {a..<b}" and "a \<le> b" and "b \<le> c"
  shows "A \<subseteq> C \<union> {a..<c}"
proof
  fix x assume "x \<in> A"
  then have "x \<in> B \<or> x \<in> {b..<c}" using assms(1) by auto
  then show "x \<in> C \<union> {a..<c}"
  proof
    assume "x \<in> B"
    then have "x \<in> C \<or> x \<in> {a..<b}" using assms(2) by auto
    then show ?thesis using assms(4) by auto
  next
    assume "x \<in> {b..<c}"
    then show ?thesis using assms(3) by auto
  qed
qed

lemma keepsToItsSliceD:
  assumes "keepsToItsSlice stage" and "stage m objs = (m', res)"
  shows "nextAddr m \<le> nextAddr m' \<and>
    (\<forall>a<nextAddr m. a \<notin> set objs \<longrightarrow> cells m' a = cells m a) \<and>
    (\<forall>objs'. res = Inr objs' \<longrightarrow> set objs' \<subseteq> set objs \<union> {nextAddr m..<nextAddr m'})"
proof -
  from assms(1) have "case stage m objs of
        (m', res) \<Rightarrow>
          nextAddr m \<le> nextAddr m' \<and>
          (\<forall>a<nextAddr m. a \<notin> set objs \<longrightarrow> cells m' a = cells m a) \<and>
          (case res of
             Inl e \<Rightarrow> True
           | Inr objects' \<Rightarrow> set objects' \<subseteq> set objs \<union> {nextAddr m..<nextAddr m'})"
    unfolding keepsToItsSlice_def by (elim allE)
  then show ?thesis using assms(2) by (simp split: sum.splits)
qed

lemma ApplyPostRenderers_mem_frame:
  "\<forall>p\<in>set ps. keepsToItsSlice (runMem p) \<Longrightarrow>
   ApplyPostRenderers_mem runMem m objs ps = (m', res) \<Longrightarrow>
   nextAddr m \<le> nextAddr m' \<and>
   (\<forall>a<nextAddr m. a \<notin> set objs \<longrightarrow> cells m' a = cells m a) \<and>
   (\<forall>objs'. res = Inr objs' \<longrightarrow> set objs' \<subseteq> set objs \<union> {nextAddr m..<nextAddr m'})"
proof (induction ps arbitrary: m objs)
  case Nil
  then show ?case by auto
next
  case (Cons p rest)
  obtain m1 res1 where run: "runMem p m objs = (m1, res1)" by (cases "runMem p m objs")
  have "keepsToItsSlice (runMem p)" using Cons.prems(1) by simp
  from keepsToItsSliceD[OF this run]
  have st: "nextAddr m \<le> nextAddr m1"
      "\<forall>a<nextAddr m. a \<notin> set objs \<longrightarrow> cells m1 a = cells m a"
      "\<forall>objs1. res1 = Inr objs1 \<longrightarrow> set objs1 \<subseteq> set objs \<union> {nextAddr m..<nextAddr m1}"
    by simp_all
  show ?case
  proof (cases res1)
    case (Inl e)
    then show ?thesis using Cons.prems(2) run st by auto
  next
    case (Inr objs1)
    then have rest: "ApplyPostRenderers_mem runMem m1 objs1 rest = (m', res)"
      using Cons.prems(2) run by simp
    have "\<forall>p\<in>set rest. keepsToItsSlice (runMem p)" using Cons.prems(1) by simp
    from Cons.IH[OF this rest] have ih: "nextAddr m1 \<le> nextAddr m'"
      "\<forall>a<nextAddr m1. a \<notin> set objs1 \<longrightarrow> cells m' a = cells m1 a"
      "\<forall>objs'. res = Inr objs' \<longrightarrow> set objs' \<subseteq> set objs1 \<union> {nextAddr m1..<nextAddr m'}"
      by auto
    have sub: "set objs1 \<subseteq> set objs \<union> {nextAddr m..<nextAddr m1}" using st(3) Inr by simp
    have a: "nextAddr m \<le> nextAddr m'" using st(1) ih(1) by simp
    have b: "\<forall>a<nextAddr m. a \<notin> set objs \<longrightarrow> cells m' a = cells m a"
    proof (intro allI impI)
      fix a assume lt: "a < nextAddr m" and notin: "a \<notin> set objs"
      then have "a \<notin> set objs1" using sub by auto
      moreover have "a < nextAddr m1" using lt st(1) by simp
      ultimately have "cells m' a = cells m1 a" using ih(2) by simp
      then show "cells m' a = cells m a" using st(2) lt notin by simp
    qed
    have c: "\<forall>objs'. res = Inr objs' \<longrightarrow> set objs' \<subseteq> set objs \<union> {nextAddr m..<nextAddr m'}"
    proof (intro allI impI)
      fix objs' assume "res = Inr objs'"
      then have "set objs' \<subseteq> set objs1 \<union> {nextAddr m1..<nextAddr m'}" using ih(3) by simp
      then show "set objs' \<subseteq> set objs \<union> {nextAddr m..<nextAddr m'}"
        using sub st(1) ih(1) by (rule interval_chain)
    qed
    show ?thesis using a b c by simp
  qed
qed

lemma renderSources_mem_frame:
  "\<forall>holder\<in>set holders. \<forall>p\<in>set (Source.PostRenderers (Source holder)).
      keepsToItsSlice (runMem p) \<Longrightarrow>
   renderSources_mem runMem digest m ro holders allObjects = (m', res) \<Longrightarrow>
   nextAddr m \<le> nextAddr m' \<and> (\<forall>a<nextAddr m. cells m' a = cells m a) \<and>
   (\<forall>all'. res = Inr all' \<longrightarrow> set all' \<subseteq> set allObjects \<union> {nextAddr m..<nextAddr m'})"
proof (induction holders arbitrary: m allObjects)
  case Nil
  then show ?case by auto
next
  case (Cons holder rest)
  have stages: "\<forall>p\<in>set (Source.PostRenderers (Source holder)). keepsToItsSlice (runMem p)"
    and stages_rest: "\<forall>holder\<in>set rest. \<forall>p\<in>set (Source.PostRenderers (Source holder)).
      keepsToItsSlice (runMem p)"
    using Cons.prems(1) by simp_all
  show ?case
  proof (cases "ApplySourceSelectors (cells m) (Source holder) (SourceSelectors ro)")
    case (Inl e)
    then show ?thesis using Cons.prems(2) by auto
  next
    case (Inr selected)
    show ?thesis
    proof (cases selected)
      case False
      then have "renderSources_mem runMem digest m ro rest allObjects = (m', res)"
        using Cons.prems(2) Inr by simp
      from Cons.IH[OF stages_rest this] show ?thesis .
    next
      case True
      obtain m1 sourceObjects where
        copy: "copyObjects_mem ro m (Objects (Source holder)) [] = (m1, sourceObjects)"
        by (cases "copyObjects_mem ro m (Objects (Source holder)) []")
      let ?m2 = "hashObjects_mem digest ro m1 sourceObjects"
      obtain m3 res3 where chain: "ApplyPostRenderers_mem runMem ?m2 sourceObjects
          (Source.PostRenderers (Source holder)) = (m3, res3)"
        by (cases "ApplyPostRenderers_mem runMem ?m2 sourceObjects
          (Source.PostRenderers (Source holder))")
      from copyObjects_mem_frame[OF copy]
      have c1: "nextAddr m \<le> nextAddr m1" "\<forall>a<nextAddr m. cells m1 a = cells m a"
        "set sourceObjects \<subseteq> {nextAddr m..<nextAddr m1}"
        by simp_all
      from hashObjects_mem_frame[of digest ro m1 sourceObjects]
      have c2: "nextAddr ?m2 = nextAddr m1"
        "\<forall>a. a \<notin> set sourceObjects \<longrightarrow> cells ?m2 a = cells m1 a"
        by simp_all
      from ApplyPostRenderers_mem_frame[OF stages chain]
      have c3: "nextAddr ?m2 \<le> nextAddr m3"
        "\<forall>a<nextAddr ?m2. a \<notin> set sourceObjects \<longrightarrow> cells m3 a = cells ?m2 a"
        "\<forall>objs'. res3 = Inr objs' \<longrightarrow>
           set objs' \<subseteq> set sourceObjects \<union> {nextAddr ?m2..<nextAddr m3}"
        by simp_all
      have le3: "nextAddr m \<le> nextAddr m3" using c1(1) c2(1) c3(1) by simp
      have below: "\<forall>a<nextAddr m. cells m3 a = cells m a"
      proof (intro allI impI)
        fix a assume lt: "a < nextAddr m"
        then have notin: "a \<notin> set sourceObjects" using c1(3) by auto
        have "a < nextAddr ?m2" using lt c1(1) c2(1) by simp
        then have "cells m3 a = cells ?m2 a" using c3(2) notin by simp
        also have "\<dots> = cells m1 a" using c2(2) notin by simp
        also have "\<dots> = cells m a" using c1(2) lt by simp
        finally show "cells m3 a = cells m a" .
      qed
      show ?thesis
      proof (cases res3)
        case (Inl e)
        then have "m' = m3" "res = Inl (SourcePostRenderError e)"
          using Cons.prems(2) Inr True copy chain by (simp_all add: Let_def)
        then show ?thesis using le3 below by simp
      next
        case res3: (Inr sourceObjects')
        then have rest: "renderSources_mem runMem digest m3 ro rest (allObjects @ sourceObjects') =
            (m', res)"
          using Cons.prems(2) Inr True copy chain by (simp add: Let_def)
        from Cons.IH[OF stages_rest rest]
        have ih: "nextAddr m3 \<le> nextAddr m'" "\<forall>a<nextAddr m3. cells m' a = cells m3 a"
          "\<forall>all'. res = Inr all' \<longrightarrow>
             set all' \<subseteq> set (allObjects @ sourceObjects') \<union> {nextAddr m3..<nextAddr m'}"
          by simp_all
        have src: "set sourceObjects' \<subseteq> {nextAddr m..<nextAddr m3}"
        proof
          fix x assume "x \<in> set sourceObjects'"
          then have "x \<in> set sourceObjects \<or> x \<in> {nextAddr ?m2..<nextAddr m3}"
            using c3(3) res3 by auto
          then show "x \<in> {nextAddr m..<nextAddr m3}"
            using c1(1) c1(3) c2(1) c3(1) by auto
        qed
        have a: "nextAddr m \<le> nextAddr m'" using le3 ih(1) by simp
        have b: "\<forall>a<nextAddr m. cells m' a = cells m a"
          using below ih(2) le3 by auto
        have c: "\<forall>all'. res = Inr all' \<longrightarrow>
            set all' \<subseteq> set allObjects \<union> {nextAddr m..<nextAddr m'}"
        proof (intro allI impI)
          fix all' assume "res = Inr all'"
          then have sub: "set all' \<subseteq> set (allObjects @ sourceObjects') \<union>
              {nextAddr m3..<nextAddr m'}"
            using ih(3) by simp
          show "set all' \<subseteq> set allObjects \<union> {nextAddr m..<nextAddr m'}"
          proof
            fix x assume "x \<in> set all'"
            then have "x \<in> set allObjects \<or> x \<in> set sourceObjects' \<or>
                x \<in> {nextAddr m3..<nextAddr m'}"
              using sub by auto
            then show "x \<in> set allObjects \<union> {nextAddr m..<nextAddr m'}"
              using src le3 ih(1) by auto
          qed
        qed
        show ?thesis using a b c by simp
      qed
    qed
  qed
qed

lemma Process_mem_frame:
  assumes "\<forall>p\<in>set (stagesOf r). keepsToItsSlice (runMem p)"
    and "Process_mem runMem digest m r = (m', res)"
  shows "nextAddr m \<le> nextAddr m' \<and> (\<forall>a<nextAddr m. cells m' a = cells m a) \<and>
    (\<forall>result. res = Inr result \<longrightarrow> set result \<subseteq> {nextAddr m..<nextAddr m'})"
proof -
  let ?chain = "BuildPostRendererChain (Filters (opts r)) (Transformers (opts r))
                         (RendererOptions.PostRenderers (opts r))"
  have per_source: "\<forall>holder\<in>set (inputs r). \<forall>p\<in>set (Source.PostRenderers (Source holder)).
      keepsToItsSlice (runMem p)"
    using assms(1) by (auto simp: stagesOf_def)
  have renderer_level: "\<forall>p\<in>set ?chain. keepsToItsSlice (runMem p)"
    using assms(1) by (auto simp: stagesOf_def BuildPostRendererChain_def)
  obtain m1 res1 where loop: "renderSources_mem runMem digest m (opts r) (inputs r) [] = (m1, res1)"
    by (cases "renderSources_mem runMem digest m (opts r) (inputs r) []")
  from renderSources_mem_frame[OF per_source loop]
  have l: "nextAddr m \<le> nextAddr m1" "\<forall>a<nextAddr m. cells m1 a = cells m a"
    "\<forall>all'. res1 = Inr all' \<longrightarrow> set all' \<subseteq> {nextAddr m..<nextAddr m1}"
    by simp_all
  show ?thesis
  proof (cases res1)
    case (Inl e)
    then have "m' = m1" "res = Inl e" using assms(2) loop by (simp_all add: Process_mem_def)
    then show ?thesis using l by simp
  next
    case (Inr allObjects)
    obtain m2 res2 where chain: "ApplyPostRenderers_mem runMem m1 allObjects ?chain = (m2, res2)"
      by (cases "ApplyPostRenderers_mem runMem m1 allObjects ?chain")
    from ApplyPostRenderers_mem_frame[OF renderer_level chain]
    have c: "nextAddr m1 \<le> nextAddr m2"
      "\<forall>a<nextAddr m1. a \<notin> set allObjects \<longrightarrow> cells m2 a = cells m1 a"
      "\<forall>objs'. res2 = Inr objs' \<longrightarrow> set objs' \<subseteq> set allObjects \<union> {nextAddr m1..<nextAddr m2}"
      by simp_all
    have all: "set allObjects \<subseteq> {nextAddr m..<nextAddr m1}" using l(3) Inr by simp
    have m': "m' = m2" using assms(2) loop Inr chain
      by (cases res2) (simp_all add: Process_mem_def Let_def)
    have res: "\<forall>result. res = Inr result \<longrightarrow> res2 = Inr result" using assms(2) loop Inr chain
      by (cases res2) (auto simp: Process_mem_def Let_def)
    have a: "nextAddr m \<le> nextAddr m'" using l(1) c(1) m' by simp
    have b: "\<forall>a<nextAddr m. cells m' a = cells m a"
    proof (intro allI impI)
      fix a assume lt: "a < nextAddr m"
      then have "a \<notin> set allObjects" using all by auto
      moreover have "a < nextAddr m1" using lt l(1) by simp
      ultimately have "cells m2 a = cells m1 a" using c(2) by simp
      then show "cells m' a = cells m a" using l(2) lt m' by simp
    qed
    have d: "\<forall>result. res = Inr result \<longrightarrow> set result \<subseteq> {nextAddr m..<nextAddr m'}"
    proof (intro allI impI)
      fix result assume "res = Inr result"
      then have sub: "set result \<subseteq> set allObjects \<union> {nextAddr m1..<nextAddr m2}"
        using res c(3) by simp
      have "set allObjects \<subseteq> {} \<union> {nextAddr m..<nextAddr m1}" using all by simp
      from interval_chain[OF sub this l(1) c(1)]
      show "set result \<subseteq> {nextAddr m..<nextAddr m'}"
        using m' by simp
    qed
    show ?thesis using a b d by simp
  qed
qed

subsection \<open>What the copies hold\<close>

lemma allocate_props:
  "allocate m vs = (m', cs) \<Longrightarrow>
   nextAddr m \<le> nextAddr m' \<and> (\<forall>a<nextAddr m. cells m' a = cells m a) \<and>
   set cs \<subseteq> {nextAddr m..<nextAddr m'} \<and> map (cells m') cs = vs"
proof (induction vs arbitrary: m m' cs)
  case Nil
  then show ?case by simp
next
  case (Cons v rest)
  let ?m1 = "\<lparr>cells = (cells m)(nextAddr m := v), nextAddr = Suc (nextAddr m)\<rparr>"
  obtain m2 cs2 where rest: "allocate ?m1 rest = (m2, cs2)" by (cases "allocate ?m1 rest")
  then have eq: "m' = m2" "cs = nextAddr m # cs2" using Cons.prems by simp_all
  from Cons.IH[OF rest]
  have ih: "Suc (nextAddr m) \<le> nextAddr m2"
    "\<forall>a<Suc (nextAddr m). cells m2 a = cells ?m1 a"
    "set cs2 \<subseteq> {Suc (nextAddr m)..<nextAddr m2}" "map (cells m2) cs2 = rest"
    by simp_all
  have here: "cells m2 (nextAddr m) = v" using ih(2) by simp
  have below: "\<forall>a<nextAddr m. cells m2 a = cells m a" using ih(2) by simp
  have sub: "set cs \<subseteq> {nextAddr m..<nextAddr m2}" using eq(2) ih(1) ih(3) by auto
  show ?case using eq ih(1) ih(4) here below sub by simp
qed

lemma onCopies_keepsToItsSlice: "keepsToItsSlice (onCopies p)"
  unfolding keepsToItsSlice_def
proof (intro allI)
  fix m objects
  show "case onCopies p m objects of
        (m', res) \<Rightarrow>
          nextAddr m \<le> nextAddr m' \<and>
          (\<forall>a<nextAddr m. a \<notin> set objects \<longrightarrow> cells m' a = cells m a) \<and>
          (case res of
             Inl e \<Rightarrow> True
           | Inr objects' \<Rightarrow> set objects' \<subseteq> set objects \<union> {nextAddr m..<nextAddr m'})"
  proof (cases "p (map (cells m) objects)")
    case (Inl e)
    then show ?thesis by (simp add: onCopies_def)
  next
    case (Inr vs)
    obtain m' cs where al: "allocate m vs = (m', cs)" by (cases "allocate m vs")
    from allocate_props[OF al] show ?thesis using Inr al by (auto simp: onCopies_def)
  qed
qed

lemma onCopies_computes: "computes (onCopies p) p"
  unfolding computes_def
proof (intro allI)
  fix m objects
  show "case onCopies p m objects of
        (m', res) \<Rightarrow>
          (case res of
             Inl e \<Rightarrow> p (map (cells m) objects) = Inl e
           | Inr objects' \<Rightarrow> p (map (cells m) objects) = Inr (map (cells m') objects'))"
  proof (cases "p (map (cells m) objects)")
    case (Inl e)
    then show ?thesis by (simp add: onCopies_def)
  next
    case (Inr vs)
    obtain m' cs where al: "allocate m vs = (m', cs)" by (cases "allocate m vs")
    from allocate_props[OF al] show ?thesis using Inr al by (simp add: onCopies_def)
  qed
qed

lemma computesD:
  assumes "computes stage p" and "stage m objs = (m', res)"
  shows "p (map (cells m) objs) = map_sum id (map (cells m')) res"
proof -
  from assms(1) have "case stage m objs of
        (m', res) \<Rightarrow>
          (case res of
             Inl e \<Rightarrow> p (map (cells m) objs) = Inl e
           | Inr objects' \<Rightarrow> p (map (cells m) objs) = Inr (map (cells m') objects'))"
    unfolding computes_def by (elim allE)
  then show ?thesis using assms(2) by (simp split: sum.splits)
qed

lemma ApplyPostRenderers_mem_computes:
  "\<forall>p\<in>set ps. computes (runMem p) p \<Longrightarrow>
   ApplyPostRenderers_mem runMem m objs ps = (m', res) \<Longrightarrow>
   ApplyPostRenderers (map (cells m) objs) ps = map_sum id (map (cells m')) res"
proof (induction ps arbitrary: m objs)
  case Nil
  then show ?case by auto
next
  case (Cons p rest)
  obtain m1 res1 where run: "runMem p m objs = (m1, res1)" by (cases "runMem p m objs")
  have "computes (runMem p) p" using Cons.prems(1) by simp
  from computesD[OF this run]
  have p: "p (map (cells m) objs) = map_sum id (map (cells m1)) res1" .
  show ?case
  proof (cases res1)
    case (Inl e)
    then show ?thesis using Cons.prems(2) run p by auto
  next
    case (Inr objs1)
    then have rest: "ApplyPostRenderers_mem runMem m1 objs1 rest = (m', res)"
      using Cons.prems(2) run by simp
    have "\<forall>p\<in>set rest. computes (runMem p) p" using Cons.prems(1) by simp
    from Cons.IH[OF this rest] show ?thesis using p Inr by simp
  qed
qed

lemma copyObject_cong: "h obj = h' obj \<Longrightarrow> copyObject h ro obj = copyObject h' ro obj"
  by (simp add: copyObject_def DeepCopy_def)

lemma copyObjects_mem_content:
  "copyObjects_mem ro m objs sourceObjects = (m', sourceObjects') \<Longrightarrow>
   \<forall>obj\<in>set objs. obj < nextAddr m \<Longrightarrow>
   \<exists>new. sourceObjects' = sourceObjects @ new \<and> distinct new \<and>
     set new \<subseteq> {nextAddr m..<nextAddr m'} \<and>
     map (cells m') new = map (copyObject (cells m) ro) objs"
proof (induction objs arbitrary: m sourceObjects)
  case Nil
  then show ?case by simp
next
  case (Cons obj rest)
  let ?n = "nextAddr m"
  let ?m1 = "fst (DeepCopy_mem m obj)"
  let ?m2 = "if SourceAnnotations ro then addSourceAnnotations_mem ?m1 ?n else ?m1"
  have step: "copyObjects_mem ro ?m2 rest (sourceObjects @ [?n]) = (m', sourceObjects')"
    using Cons.prems(1) by (cases "SourceAnnotations ro") (simp_all add: DeepCopy_mem_def Let_def)
  have lt: "obj < ?n" using Cons.prems(2) by simp
  have m2: "nextAddr ?m2 = Suc ?n" "\<forall>a<?n. cells ?m2 a = cells m a"
    "cells ?m2 ?n = copyObject (cells m) ro obj"
    by (simp_all add: DeepCopy_mem_def addSourceAnnotations_mem_def copyObject_def Let_def)
  have rest_lt: "\<forall>obj\<in>set rest. obj < nextAddr ?m2" using Cons.prems(2) m2(1) by auto
  from Cons.IH[OF step rest_lt] obtain new where new:
    "sourceObjects' = (sourceObjects @ [?n]) @ new" "distinct new"
    "set new \<subseteq> {nextAddr ?m2..<nextAddr m'}"
    "map (cells m') new = map (copyObject (cells ?m2) ro) rest"
    by blast
  from copyObjects_mem_frame[OF step]
  have fr: "nextAddr ?m2 \<le> nextAddr m'" "\<forall>a<nextAddr ?m2. cells m' a = cells ?m2 a"
    by simp_all
  have here: "cells m' ?n = copyObject (cells m) ro obj" using fr(2) m2(1) m2(3) by simp
  have "\<forall>o'\<in>set rest. copyObject (cells ?m2) ro o' = copyObject (cells m) ro o'"
  proof
    fix o' assume "o' \<in> set rest"
    then have "o' < ?n" using Cons.prems(2) by simp
    then have "cells ?m2 o' = cells m o'" using m2(2) by simp
    then show "copyObject (cells ?m2) ro o' = copyObject (cells m) ro o'"
      by (rule copyObject_cong)
  qed
  then have content: "map (cells m') new = map (copyObject (cells m) ro) rest"
    using new(4) by simp
  have notin: "?n \<notin> set new" using new(3) m2(1) by auto
  have sub: "set (?n # new) \<subseteq> {?n..<nextAddr m'}" using new(3) m2(1) fr(1) by auto
  have "sourceObjects' = sourceObjects @ (?n # new) \<and> distinct (?n # new) \<and>
     set (?n # new) \<subseteq> {?n..<nextAddr m'} \<and>
     map (cells m') (?n # new) = map (copyObject (cells m) ro) (obj # rest)"
    using new(1) new(2) notin sub here content by simp
  then show ?case by blast
qed

lemma setHashes_mem_content:
  "distinct objs \<Longrightarrow>
   map (cells (setHashes_mem digest m objs)) objs = map (SetContentHash digest) (map (cells m) objs)"
proof (induction objs arbitrary: m)
  case Nil
  then show ?case by simp
next
  case (Cons obj rest)
  let ?m1 = "SetContentHash_mem digest m obj"
  have d: "distinct rest" "obj \<notin> set rest" using Cons.prems by simp_all
  have here: "cells (setHashes_mem digest ?m1 rest) obj = SetContentHash digest (cells m obj)"
    using setHashes_mem_frame[of digest ?m1 rest] d(2) by (simp add: SetContentHash_mem_def)
  have "map (cells ?m1) rest = map (cells m) rest"
    using d(2) by (auto simp: SetContentHash_mem_def)
  then show ?case using Cons.IH[OF d(1), of ?m1] here by simp
qed

lemma hashObjects_mem_content:
  "distinct objs \<Longrightarrow>
   map (cells (hashObjects_mem digest ro m objs)) objs = hashObjects digest ro (map (cells m) objs)"
  by (simp add: hashObjects_mem_def hashObjects_def setHashes_mem_content)

lemma ApplySourceSelectors_cong:
  "\<forall>s\<in>set sels. readsItsSource s \<Longrightarrow> \<forall>a\<in>set (Objects src). h a = h' a \<Longrightarrow>
   ApplySourceSelectors h src sels = ApplySourceSelectors h' src sels"
proof (induction sels)
  case Nil
  then show ?case by simp
next
  case (Cons s rest)
  have "readsItsSource s" using Cons.prems(1) by simp
  then have head: "s h src = s h' src" using Cons.prems(2) unfolding readsItsSource_def by blast
  have r: "\<forall>s\<in>set rest. readsItsSource s" using Cons.prems(1) by simp
  have ih: "ApplySourceSelectors h src rest = ApplySourceSelectors h' src rest"
    by (rule Cons.IH[OF r Cons.prems(2)])
  show ?case by (simp only: ApplySourceSelectors.simps head ih)
qed

lemma renderSources_cong:
  "\<forall>s\<in>set (SourceSelectors ro). readsItsSource s \<Longrightarrow>
   \<forall>holder\<in>set holders. \<forall>a\<in>set (Objects (Source holder)). h a = h' a \<Longrightarrow>
   renderSources digest h ro holders acc = renderSources digest h' ro holders acc"
proof (induction holders arbitrary: acc)
  case Nil
  then show ?case by simp
next
  case (Cons holder rest)
  have same: "\<forall>a\<in>set (Objects (Source holder)). h a = h' a"
    using Cons.prems(2) by (meson list.set_intros(1))
  have others: "\<forall>holder\<in>set rest. \<forall>a\<in>set (Objects (Source holder)). h a = h' a"
    using Cons.prems(2) by (meson list.set_intros(2))
  have sel: "ApplySourceSelectors h (Source holder) (SourceSelectors ro) =
      ApplySourceSelectors h' (Source holder) (SourceSelectors ro)"
    using ApplySourceSelectors_cong[OF Cons.prems(1) same] .
  have "map (copyObject h ro) (Objects (Source holder)) =
      map (copyObject h' ro) (Objects (Source holder))"
  proof (rule map_cong[OF refl])
    fix a assume "a \<in> set (Objects (Source holder))"
    then have "h a = h' a" using same by blast
    then show "copyObject h ro a = copyObject h' ro a" by (rule copyObject_cong)
  qed
  then have src: "renderSource digest h ro holder = renderSource digest h' ro holder"
    by (simp only: renderSource_def)
  have rest: "\<And>acc. renderSources digest h ro rest acc = renderSources digest h' ro rest acc"
    by (rule Cons.IH[OF Cons.prems(1) others])
  show ?case
    by (simp only: renderSources_step sel src rest)
qed

lemma source_step_mem:
  assumes keeps: "\<forall>p\<in>set (Source.PostRenderers (Source holder)). keepsToItsSlice (runMem p)"
    and comp: "\<forall>p\<in>set (Source.PostRenderers (Source holder)). computes (runMem p) p"
    and stored: "\<forall>obj\<in>set (Objects (Source holder)). obj < nextAddr m"
    and copy: "copyObjects_mem ro m (Objects (Source holder)) [] = (m1, sourceObjects)"
    and chain: "ApplyPostRenderers_mem runMem (hashObjects_mem digest ro m1 sourceObjects)
        sourceObjects (Source.PostRenderers (Source holder)) = (m3, res3)"
  shows "nextAddr m \<le> nextAddr m3 \<and> (\<forall>a<nextAddr m. cells m3 a = cells m a) \<and>
    (\<forall>sourceObjects'. res3 = Inr sourceObjects' \<longrightarrow>
       set sourceObjects' \<subseteq> {nextAddr m..<nextAddr m3}) \<and>
    renderSource digest (cells m) ro holder = map_sum id (map (cells m3)) res3"
proof -
  let ?m2 = "hashObjects_mem digest ro m1 sourceObjects"
  from copyObjects_mem_frame[OF copy]
  have c1: "nextAddr m \<le> nextAddr m1" "\<forall>a<nextAddr m. cells m1 a = cells m a"
    "set sourceObjects \<subseteq> {nextAddr m..<nextAddr m1}"
    by simp_all
  from copyObjects_mem_content[OF copy stored]
  have content1: "distinct sourceObjects"
    "map (cells m1) sourceObjects = map (copyObject (cells m) ro) (Objects (Source holder))"
    by simp_all
  from hashObjects_mem_frame[of digest ro m1 sourceObjects]
  have c2: "nextAddr ?m2 = nextAddr m1"
    "\<forall>a. a \<notin> set sourceObjects \<longrightarrow> cells ?m2 a = cells m1 a"
    by simp_all
  have content2: "map (cells ?m2) sourceObjects =
      hashObjects digest ro (map (copyObject (cells m) ro) (Objects (Source holder)))"
    using hashObjects_mem_content[OF content1(1), of digest ro m1] content1(2) by simp
  from ApplyPostRenderers_mem_frame[OF keeps chain]
  have c3: "nextAddr ?m2 \<le> nextAddr m3"
    "\<forall>a<nextAddr ?m2. a \<notin> set sourceObjects \<longrightarrow> cells m3 a = cells ?m2 a"
    "\<forall>objs'. res3 = Inr objs' \<longrightarrow>
       set objs' \<subseteq> set sourceObjects \<union> {nextAddr ?m2..<nextAddr m3}"
    by simp_all
  have content3: "renderSource digest (cells m) ro holder = map_sum id (map (cells m3)) res3"
    using ApplyPostRenderers_mem_computes[OF comp chain] content2
    by (simp add: renderSource_def)
  have le3: "nextAddr m \<le> nextAddr m3" using c1(1) c2(1) c3(1) by simp
  have below: "\<forall>a<nextAddr m. cells m3 a = cells m a"
  proof (intro allI impI)
    fix a assume lt: "a < nextAddr m"
    then have notin: "a \<notin> set sourceObjects" using c1(3) by auto
    have "a < nextAddr ?m2" using lt c1(1) c2(1) by simp
    then have "cells m3 a = cells ?m2 a" using c3(2) notin by simp
    also have "\<dots> = cells m1 a" using c2(2) notin by simp
    also have "\<dots> = cells m a" using c1(2) lt by simp
    finally show "cells m3 a = cells m a" .
  qed
  have src: "\<forall>sourceObjects'. res3 = Inr sourceObjects' \<longrightarrow>
       set sourceObjects' \<subseteq> {nextAddr m..<nextAddr m3}"
  proof (intro allI impI)
    fix sourceObjects' assume "res3 = Inr sourceObjects'"
    then have sub: "set sourceObjects' \<subseteq> set sourceObjects \<union> {nextAddr m1..<nextAddr m3}"
      using c3(3) c2(1) by simp
    have "set sourceObjects \<subseteq> {} \<union> {nextAddr m..<nextAddr m1}" using c1(3) by simp
    from interval_chain[OF sub this c1(1)] c3(1) c2(1)
    show "set sourceObjects' \<subseteq> {nextAddr m..<nextAddr m3}" by simp
  qed
  show ?thesis using le3 below src content3 by simp
qed

lemma renderSources_mem_refines:
  "\<forall>holder\<in>set holders. \<forall>p\<in>set (Source.PostRenderers (Source holder)).
      keepsToItsSlice (runMem p) \<Longrightarrow>
   \<forall>holder\<in>set holders. \<forall>p\<in>set (Source.PostRenderers (Source holder)).
      computes (runMem p) p \<Longrightarrow>
   \<forall>s\<in>set (SourceSelectors ro). readsItsSource s \<Longrightarrow>
   \<forall>holder\<in>set holders. \<forall>obj\<in>set (Objects (Source holder)). obj < nextAddr m \<Longrightarrow>
   set allObjects \<subseteq> {..<nextAddr m} \<Longrightarrow>
   renderSources_mem runMem digest m ro holders allObjects = (m', res) \<Longrightarrow>
   renderSources digest (cells m) ro holders (map (cells m) allObjects) =
     map_sum id (map (cells m')) res"
proof (induction holders arbitrary: m allObjects)
  case Nil
  then show ?case by auto
next
  case (Cons holder rest)
  have keeps: "\<forall>p\<in>set (Source.PostRenderers (Source holder)). keepsToItsSlice (runMem p)"
    using Cons.prems(1) by (meson list.set_intros(1))
  have keeps_rest: "\<forall>holder\<in>set rest. \<forall>p\<in>set (Source.PostRenderers (Source holder)).
      keepsToItsSlice (runMem p)"
    using Cons.prems(1) by (meson list.set_intros(2))
  have comp: "\<forall>p\<in>set (Source.PostRenderers (Source holder)). computes (runMem p) p"
    using Cons.prems(2) by (meson list.set_intros(1))
  have comp_rest: "\<forall>holder\<in>set rest. \<forall>p\<in>set (Source.PostRenderers (Source holder)).
      computes (runMem p) p"
    using Cons.prems(2) by (meson list.set_intros(2))
  have stored: "\<forall>obj\<in>set (Objects (Source holder)). obj < nextAddr m"
    using Cons.prems(4) by (meson list.set_intros(1))
  have stored_rest: "\<forall>holder\<in>set rest. \<forall>obj\<in>set (Objects (Source holder)). obj < nextAddr m"
    using Cons.prems(4) by (meson list.set_intros(2))
  note sels = Cons.prems(3)
  note acc = Cons.prems(5)
  note run = Cons.prems(6)
  show ?case
  proof (cases "ApplySourceSelectors (cells m) (Source holder) (SourceSelectors ro)")
    case (Inl e)
    then show ?thesis using run by (auto simp: renderSources_step simp del: renderSources.simps)
  next
    case (Inr selected)
    show ?thesis
    proof (cases selected)
      case False
      then have "renderSources_mem runMem digest m ro rest allObjects = (m', res)"
        using run Inr by simp
      from Cons.IH[OF keeps_rest comp_rest sels stored_rest acc this]
      show ?thesis using Inr False by (simp add: renderSources_step del: renderSources.simps)
    next
      case True
      obtain m1 sourceObjects where
        copy: "copyObjects_mem ro m (Objects (Source holder)) [] = (m1, sourceObjects)"
        by (cases "copyObjects_mem ro m (Objects (Source holder)) []")
      let ?m2 = "hashObjects_mem digest ro m1 sourceObjects"
      obtain m3 res3 where chain: "ApplyPostRenderers_mem runMem ?m2 sourceObjects
          (Source.PostRenderers (Source holder)) = (m3, res3)"
        by (cases "ApplyPostRenderers_mem runMem ?m2 sourceObjects
          (Source.PostRenderers (Source holder))")
      from source_step_mem[OF keeps comp stored copy chain]
      have st: "nextAddr m \<le> nextAddr m3" "\<forall>a<nextAddr m. cells m3 a = cells m a"
        "\<forall>sourceObjects'. res3 = Inr sourceObjects' \<longrightarrow>
           set sourceObjects' \<subseteq> {nextAddr m..<nextAddr m3}"
        "renderSource digest (cells m) ro holder = map_sum id (map (cells m3)) res3"
        by simp_all
      show ?thesis
      proof (cases res3)
        case (Inl e)
        then have "m' = m3" "res = Inl (SourcePostRenderError e)"
          using run Inr True copy chain by (simp_all add: Let_def)
        then show ?thesis using Inr True st(4) Inl
          by (simp add: renderSources_step del: renderSources.simps)
      next
        case res3: (Inr sourceObjects')
        then have rest: "renderSources_mem runMem digest m3 ro rest (allObjects @ sourceObjects') =
            (m', res)"
          using run Inr True copy chain by (simp add: Let_def)
        have stored3: "\<forall>holder\<in>set rest. \<forall>obj\<in>set (Objects (Source holder)).
            obj < nextAddr m3"
          using stored_rest st(1) by (meson less_le_trans)
        have acc3: "set (allObjects @ sourceObjects') \<subseteq> {..<nextAddr m3}"
          using acc st(1) st(3) res3 by auto
        from Cons.IH[OF keeps_rest comp_rest sels stored3 acc3 rest]
        have ih: "renderSources digest (cells m3) ro rest (map (cells m3) (allObjects @ sourceObjects')) =
            map_sum id (map (cells m')) res" .
        have agree: "\<forall>holder\<in>set rest. \<forall>a\<in>set (Objects (Source holder)).
            cells m3 a = cells m a"
          using stored_rest st(2) by blast
        have same_acc: "map (cells m3) allObjects = map (cells m) allObjects"
        proof (rule map_cong[OF refl])
          fix a assume "a \<in> set allObjects"
          then have "a < nextAddr m" using acc by auto
          then show "cells m3 a = cells m a" using st(2) by simp
        qed
        have "renderSources digest (cells m) ro rest
            (map (cells m) allObjects @ map (cells m3) sourceObjects') =
            map_sum id (map (cells m')) res"
          using ih renderSources_cong[OF sels agree, of digest] same_acc by simp
        then show ?thesis using Inr True st(4) res3
          by (simp add: renderSources_step id_def del: renderSources.simps)
      qed
    qed
  qed
qed

text \<open>
  The reading on the memory and the reading on the elements agree. When the stages keep to
  their slices and compute what the stages of the options compute, and the selectors read
  their source only, the manifests \<open>Process_mem\<close> returns hold what \<open>Process\<close> returns on the
  store of the call, and the two fail with the same error.
\<close>

lemma Process_mem_refines_Process:
  assumes keeps: "\<forall>p\<in>set (stagesOf r). keepsToItsSlice (runMem p)"
    and comp: "\<forall>p\<in>set (stagesOf r). computes (runMem p) p"
    and sels: "\<forall>s\<in>set (SourceSelectors (opts r)). readsItsSource s"
    and stored: "\<forall>holder\<in>set (inputs r). \<forall>obj\<in>set (Objects (Source holder)). obj < nextAddr m"
    and run: "Process_mem runMem digest m r = (m', res)"
  shows "Process digest (cells m) r = map_sum id (map (cells m')) res"
proof -
  let ?chain = "BuildPostRendererChain (Filters (opts r)) (Transformers (opts r))
                         (RendererOptions.PostRenderers (opts r))"
  have keeps_src: "\<forall>holder\<in>set (inputs r). \<forall>p\<in>set (Source.PostRenderers (Source holder)).
      keepsToItsSlice (runMem p)"
    using keeps by (auto simp: stagesOf_def)
  have comp_src: "\<forall>holder\<in>set (inputs r). \<forall>p\<in>set (Source.PostRenderers (Source holder)).
      computes (runMem p) p"
    using comp by (auto simp: stagesOf_def)
  have comp_chain: "\<forall>p\<in>set ?chain. computes (runMem p) p"
    using comp by (auto simp: stagesOf_def BuildPostRendererChain_def)
  obtain m1 res1 where loop: "renderSources_mem runMem digest m (opts r) (inputs r) [] = (m1, res1)"
    by (cases "renderSources_mem runMem digest m (opts r) (inputs r) []")
  have "set ([]::addr list) \<subseteq> {..<nextAddr m}" by simp
  from renderSources_mem_refines[OF keeps_src comp_src sels stored this loop]
  have merged: "renderSources digest (cells m) (opts r) (inputs r) [] =
      map_sum id (map (cells m1)) res1"
    by simp
  show ?thesis
  proof (cases res1)
    case (Inl e)
    then have "m' = m1" "res = Inl e" using run loop by (simp_all add: Process_mem_def)
    then show ?thesis using merged Inl by (simp add: Process_def)
  next
    case (Inr allObjects)
    obtain m2 res2 where chain: "ApplyPostRenderers_mem runMem m1 allObjects ?chain = (m2, res2)"
      by (cases "ApplyPostRenderers_mem runMem m1 allObjects ?chain")
    from ApplyPostRenderers_mem_computes[OF comp_chain chain]
    have c: "ApplyPostRenderers (map (cells m1) allObjects) ?chain =
        map_sum id (map (cells m2)) res2" .
    show ?thesis
    proof (cases res2)
      case e: (Inl e)
      then have "m' = m2" "res = Inl (RenderPostRenderError e)"
        using run loop Inr chain by (simp_all add: Process_mem_def Let_def)
      then show ?thesis using merged Inr c e by (simp add: Process_def Let_def)
    next
      case result: (Inr result)
      then have "m' = m2" "res = Inr result"
        using run loop Inr chain by (simp_all add: Process_mem_def Let_def)
      then show ?thesis using merged Inr c result by (simp add: Process_def Let_def)
    qed
  qed
qed

text \<open>
  C2, amended. \<^verbatim>\<open>Process\<close> writes only to the copies it makes. When the stages keep to the
  slices they are handed, then after a call, failed or not, the stored documents and every
  manifest that existed before the call are as they were, and every manifest returned is a
  cell allocated during the call, none of them a stored document; so a caller who changes a
  document after the call leaves the returned manifests as they are. When moreover the
  stages compute what the stages of the options compute and the selectors read their
  source only, the manifests returned hold what \<open>Process\<close> makes of the stored documents as
  they are at the time of the call. (\<^verbatim>\<open>New\<close> keeps the caller's documents and \<^verbatim>\<open>Process\<close>
  copies them at each call: a change made between construction and a call shows in the
  output of that call.)
\<close>

theorem Process_writes_only_its_copies:
  assumes "\<forall>p\<in>set (stagesOf r). keepsToItsSlice (runMem p)"
    and "\<forall>holder\<in>set (inputs r). \<forall>obj\<in>set (Objects (Source holder)). obj < nextAddr m"
    and "Process_mem runMem digest m r = (m', res)"
  shows "(\<forall>holder\<in>set (inputs r).
            map (cells m') (Objects (Source holder)) = map (cells m) (Objects (Source holder))) \<and>
         (\<forall>a<nextAddr m. cells m' a = cells m a) \<and>
         (\<forall>result. res = Inr result \<longrightarrow>
            (\<forall>c\<in>set result. nextAddr m \<le> c \<and> c < nextAddr m' \<and>
               (\<forall>holder\<in>set (inputs r). c \<notin> set (Objects (Source holder)))) \<and>
            (\<forall>a<nextAddr m. \<forall>v. map ((cells m')(a := v)) result = map (cells m') result)) \<and>
         ((\<forall>p\<in>set (stagesOf r). computes (runMem p) p) \<and>
          (\<forall>s\<in>set (SourceSelectors (opts r)). readsItsSource s) \<longrightarrow>
            Process digest (cells m) r = map_sum id (map (cells m')) res)"
proof -
  from Process_mem_frame[OF assms(1) assms(3)]
  have f: "nextAddr m \<le> nextAddr m'" "\<forall>a<nextAddr m. cells m' a = cells m a"
    "\<forall>result. res = Inr result \<longrightarrow> set result \<subseteq> {nextAddr m..<nextAddr m'}"
    by simp_all
  have stored: "\<forall>holder\<in>set (inputs r).
      map (cells m') (Objects (Source holder)) = map (cells m) (Objects (Source holder))"
    using f(2) assms(2) by simp
  have outputs: "\<forall>result. res = Inr result \<longrightarrow>
            (\<forall>c\<in>set result. nextAddr m \<le> c \<and> c < nextAddr m' \<and>
               (\<forall>holder\<in>set (inputs r). c \<notin> set (Objects (Source holder)))) \<and>
            (\<forall>a<nextAddr m. \<forall>v. map ((cells m')(a := v)) result = map (cells m') result)"
  proof (intro allI impI conjI ballI)
    fix result c assume r: "res = Inr result" and c: "c \<in> set result"
    then show "nextAddr m \<le> c" "c < nextAddr m'" using f(3) by auto
  next
    fix result c holder
    assume r: "res = Inr result" and c: "c \<in> set result" and h: "holder \<in> set (inputs r)"
    have "nextAddr m \<le> c" using r c f(3) by auto
    moreover have "\<forall>obj\<in>set (Objects (Source holder)). obj < nextAddr m"
      using assms(2) h by blast
    ultimately show "c \<notin> set (Objects (Source holder))" by (auto simp: not_less[symmetric])
  next
    fix result a v assume r: "res = Inr result" and a: "a < nextAddr m"
    then have "a \<notin> set result" using f(3) by auto
    then show "map ((cells m')(a := v)) result = map (cells m') result" by simp
  qed
  have content: "(\<forall>p\<in>set (stagesOf r). computes (runMem p) p) \<and>
          (\<forall>s\<in>set (SourceSelectors (opts r)). readsItsSource s) \<longrightarrow>
            Process digest (cells m) r = map_sum id (map (cells m')) res"
    using Process_mem_refines_Process[OF assms(1) _ _ assms(2) assms(3)] by blast
  show ?thesis using stored f(2) outputs content by simp
qed

section \<open>Concrete instances\<close>

lemmas example_defs = plainSource_def failingSource_def twoDocStore_def valueDoc_def otherDoc_def
  nilDoc_def smallSource_def failingSelector_def keepAll_def dropAll_def failing_def addNil_def
  defaultOptions_def With_defs copyObject_def DeepCopy_def hashObjects_def

text \<open>
  C8, as stated, fails: the renderer-level chain runs on the empty slice too, and a stage
  that fails there makes \<^verbatim>\<open>Process\<close> fail, with no source at all.
\<close>

theorem empty_input_failing_stage_counterexample:
  "Process_slice freshSlice structuralDigest callerStore
     \<lparr>inputs = [], opts = applyOptions [WithPostRenderer failing] defaultOptions\<rparr> =
     Inl (RenderPostRenderError ''boom'') \<and>
   Process structuralDigest callerStore
     \<lparr>inputs = [], opts = applyOptions [WithPostRenderer failing] defaultOptions\<rparr> =
     Inl (RenderPostRenderError ''boom'')"
  by (simp add: Process_slice_def Process_def BuildPostRendererChain_def make_slice_def
      freshSlice_def example_defs)

text \<open>
  A source without objects and a source whose post-renderer drops its one object and
  returns nil, both accepted by the selector: the result is the empty slice, not nil.
\<close>

theorem empty_input_reaches_chain_empty_witness:
  "Process_slice nilWhenEmpty structuralDigest callerStore
     \<lparr>inputs = [\<lparr>Source = plainSource []\<rparr>,
                \<lparr>Source = \<lparr>Objects = [0], PostRenderers = [dropAll]\<rparr>\<rparr>],
      opts = applyOptions [WithSourceSelector smallSource] defaultOptions\<rparr> = Inr (Slice []) \<and>
   renderSource_slice nilWhenEmpty structuralDigest callerStore
     (applyOptions [WithSourceSelector smallSource] defaultOptions)
     \<lparr>Source = \<lparr>Objects = [0], PostRenderers = [dropAll]\<rparr>\<rparr> = Inr NilSlice"
proof -
  let ?r = "\<lparr>inputs = [\<lparr>Source = plainSource []\<rparr>,
                \<lparr>Source = \<lparr>Objects = [0], PostRenderers = [dropAll]\<rparr>\<rparr>],
      opts = applyOptions [WithSourceSelector smallSource] defaultOptions\<rparr>"
  have nil: "renderSource_slice nilWhenEmpty structuralDigest callerStore
     (applyOptions [WithSourceSelector smallSource] defaultOptions)
     \<lparr>Source = \<lparr>Objects = [0], PostRenderers = [dropAll]\<rparr>\<rparr> = Inr NilSlice"
    by (simp add: renderSource_slice_def nilWhenEmpty_def example_defs)
  have "\<forall>holder\<in>set (inputs ?r). rejected callerStore (opts ?r) holder \<or>
       (accepted callerStore (opts ?r) holder \<and>
        yieldsNothing (renderSource_slice nilWhenEmpty structuralDigest callerStore (opts ?r) holder))"
    by (simp add: accepted_def renderSource_slice_def yieldsNothing_def nilWhenEmpty_def
        example_defs)
  moreover have "Filters (opts ?r) = [] \<and> Transformers (opts ?r) = [] \<and>
       RendererOptions.PostRenderers (opts ?r) = []"
    by (simp add: example_defs)
  ultimately have "Process_slice nilWhenEmpty structuralDigest callerStore ?r = Inr (Slice [])"
    using empty_input_reaches_chain_empty[of ?r callerStore nilWhenEmpty structuralDigest,
        THEN conjunct1]
    by blast
  then show ?thesis using nil by simp
qed

text \<open>Three sources; the selector rejects the second, whose post-renderer would fail. The merged sequence is the first source then the third.\<close>

theorem merged_sequence_is_concatenation_witness:
  "renderSources structuralDigest twoDocStore
     (applyOptions [WithSourceSelector smallSource, WithContentHash False] defaultOptions)
     [\<lparr>Source = plainSource [0]\<rparr>, \<lparr>Source = failingSource [0, 2]\<rparr>, \<lparr>Source = plainSource [2]\<rparr>] [] =
     Inr [valueDoc, otherDoc] \<and>
   Process structuralDigest twoDocStore
     \<lparr>inputs = [\<lparr>Source = plainSource [0]\<rparr>, \<lparr>Source = failingSource [0, 2]\<rparr>,
                \<lparr>Source = plainSource [2]\<rparr>],
      opts = applyOptions [WithSourceSelector smallSource, WithContentHash False] defaultOptions\<rparr> =
     Inr [valueDoc, otherDoc]"
proof -
  let ?ro = "applyOptions [WithSourceSelector smallSource, WithContentHash False] defaultOptions"
  let ?r = "\<lparr>inputs = [\<lparr>Source = plainSource [0]\<rparr>, \<lparr>Source = failingSource [0, 2]\<rparr>,
                \<lparr>Source = plainSource [2]\<rparr>], opts = ?ro\<rparr>"
  have m: "renderSources structuralDigest twoDocStore (opts ?r) (inputs ?r) [] =
      Inr [valueDoc, otherDoc]"
    by (simp add: example_defs)
  have "Process structuralDigest twoDocStore ?r =
        tagged RenderPostRenderError
          (ApplyPostRenderers [valueDoc, otherDoc]
             (BuildPostRendererChain (Filters (opts ?r)) (Transformers (opts ?r))
                (RendererOptions.PostRenderers (opts ?r))))"
    using merged_sequence_is_concatenation[of structuralDigest twoDocStore ?r
        "[valueDoc, otherDoc]", THEN conjunct2] m
    by blast
  then have "Process structuralDigest twoDocStore ?r = Inr [valueDoc, otherDoc]"
    by (simp add: tagged_def BuildPostRendererChain_def example_defs)
  then show ?thesis using m by simp
qed


text \<open>The filter runs before the transformer though its option came later: the filter drops the copy, then the transformer adds a manifest. A failing stage in the middle ends the chain.\<close>

theorem renderer_level_chain_order_witness:
  "Process structuralDigest twoDocStore
     \<lparr>inputs = [\<lparr>Source = plainSource [0]\<rparr>],
      opts = applyOptions [WithTransformer addNil, WithFilter dropAll, WithContentHash False]
               defaultOptions\<rparr> = Inr [nilDoc] \<and>
   ApplyPostRenderers [valueDoc] ([dropAll] @ failing # [addNil]) = Inl ''boom''"
proof
  let ?ro = "applyOptions [WithTransformer addNil, WithFilter dropAll, WithContentHash False]
               defaultOptions"
  let ?r = "\<lparr>inputs = [\<lparr>Source = plainSource [0]\<rparr>], opts = ?ro\<rparr>"
  have m: "renderSources structuralDigest twoDocStore (opts ?r) (inputs ?r) [] = Inr [valueDoc]"
    by (simp add: example_defs)
  have "Process structuralDigest twoDocStore ?r =
        (case ApplyPostRenderers [valueDoc]
                (Filters (opts ?r) @ Transformers (opts ?r) @
                 RendererOptions.PostRenderers (opts ?r)) of
           Inl e \<Rightarrow> Inl (RenderPostRenderError e)
         | Inr result \<Rightarrow> Inr result)"
    using renderer_level_chain_order[where digest = structuralDigest and h = twoDocStore
        and r = ?r and merged = "[valueDoc]", THEN conjunct2, THEN conjunct1] m
    by blast
  then show "Process structuralDigest twoDocStore ?r = Inr [nilDoc]"
    by (simp add: example_defs)
next
  have "ApplyPostRenderers [valueDoc] [dropAll] = Inr [] \<and> failing [] = Inl ''boom''"
    by (simp add: example_defs)
  then show "ApplyPostRenderers [valueDoc] ([dropAll] @ failing # [addNil]) = Inl ''boom''"
    using renderer_level_chain_order[where objects = "[valueDoc]" and before = "[dropAll]"
        and mid = "[]" and p = failing and e = "''boom''" and after = "[addNil]",
        THEN conjunct2, THEN conjunct2, THEN conjunct2, THEN conjunct2]
    by blast
qed

text \<open>The first selector rejects the source, so the failing selector after it and the failing post-renderer of the source never run; a failing selector alone ends the run.\<close>

theorem selector_chain_short_circuit_witness:
  "ApplySourceSelectors twoDocStore (failingSource [0, 2])
     ([] @ smallSource # [failingSelector]) = Inr False \<and>
   renderSources structuralDigest twoDocStore
     (applyOptions [WithSourceSelector smallSource, WithSourceSelector failingSelector,
        WithContentHash False] defaultOptions)
     ([] @ \<lparr>Source = failingSource [0, 2]\<rparr> # []) [] = Inr [] \<and>
   Process structuralDigest twoDocStore
     \<lparr>inputs = [] @ \<lparr>Source = plainSource [0]\<rparr> # [\<lparr>Source = plainSource [2]\<rparr>],
      opts = applyOptions [WithSourceSelector failingSelector] defaultOptions\<rparr> =
     Inl (SourceSelectorError ''boom'')"
proof (intro conjI)
  have "(\<forall>s\<in>set []. s twoDocStore (failingSource [0, 2]) = Inr True) \<and>
      smallSource twoDocStore (failingSource [0, 2]) = Inr False"
    by (simp add: example_defs)
  then show "ApplySourceSelectors twoDocStore (failingSource [0, 2])
     ([] @ smallSource # [failingSelector]) = Inr False"
    using selector_chain_short_circuit[where pre = "[]" and h = twoDocStore
        and src = "failingSource [0, 2]" and sel = smallSource and post = "[failingSelector]",
        THEN conjunct1]
    by blast
next
  let ?ro = "applyOptions [WithSourceSelector smallSource, WithSourceSelector failingSelector,
        WithContentHash False] defaultOptions"
  have "rejected twoDocStore ?ro \<lparr>Source = failingSource [0, 2]\<rparr>"
    by (simp add: rejected_def example_defs)
  then have "renderSources structuralDigest twoDocStore ?ro
      ([] @ \<lparr>Source = failingSource [0, 2]\<rparr> # []) [] =
      renderSources structuralDigest twoDocStore ?ro ([] @ []) []"
    using selector_chain_short_circuit[where h = twoDocStore and ro = ?ro
        and holder = "\<lparr>Source = failingSource [0, 2]\<rparr>" and digest = structuralDigest
        and before = "[]" and after = "[]" and acc = "[]",
        THEN conjunct2, THEN conjunct2, THEN conjunct2, THEN conjunct1]
    by blast
  then show "renderSources structuralDigest twoDocStore ?ro
      ([] @ \<lparr>Source = failingSource [0, 2]\<rparr> # []) [] = Inr []"
    by simp
next
  let ?ro = "applyOptions [WithSourceSelector failingSelector] defaultOptions"
  have "renderSources structuralDigest twoDocStore ?ro [] [] = Inr [] \<and>
      ApplySourceSelectors twoDocStore (Source \<lparr>Source = plainSource [0]\<rparr>)
        (SourceSelectors ?ro) = Inl ''boom''"
    by (simp add: example_defs)
  then show "Process structuralDigest twoDocStore
     \<lparr>inputs = [] @ \<lparr>Source = plainSource [0]\<rparr> # [\<lparr>Source = plainSource [2]\<rparr>],
      opts = ?ro\<rparr> = Inl (SourceSelectorError ''boom'')"
    using selector_chain_short_circuit[where h = twoDocStore and e = "''boom''" and ro = ?ro
        and holder = "\<lparr>Source = plainSource [0]\<rparr>" and digest = structuralDigest
        and before = "[]" and after = "[\<lparr>Source = plainSource [2]\<rparr>]"
        and done_objects = "[]",
        THEN conjunct2, THEN conjunct2, THEN conjunct2, THEN conjunct2]
    by blast
qed

text \<open>
  C2, as stated, fails: \<^verbatim>\<open>New\<close> keeps the caller's slice, and \<^verbatim>\<open>Process\<close> copies what is in
  it at the time of the call. The caller changes the key of the document after
  construction; the next call returns the changed document.
\<close>

theorem caller_mutation_after_construction_counterexample:
  "New callerStore [plainSource [0]] [WithContentHash False] =
     Inr \<lparr>inputs = [\<lparr>Source = plainSource [0]\<rparr>],
          opts = applyOptions [WithContentHash False] defaultOptions\<rparr> \<and>
   Process structuralDigest callerStore
     \<lparr>inputs = [\<lparr>Source = plainSource [0]\<rparr>],
      opts = applyOptions [WithContentHash False] defaultOptions\<rparr> = Inr [valueDoc] \<and>
   Process structuralDigest (callerStore(0 := modifiedDoc))
     \<lparr>inputs = [\<lparr>Source = plainSource [0]\<rparr>],
      opts = applyOptions [WithContentHash False] defaultOptions\<rparr> = Inr [modifiedDoc] \<and>
   snd (Process_mem onCopies structuralDigest
          \<lparr>cells = callerStore(0 := modifiedDoc), nextAddr = 1\<rparr>
          \<lparr>inputs = [\<lparr>Source = plainSource [0]\<rparr>],
           opts = applyOptions [WithContentHash False] defaultOptions\<rparr>) = Inr [1] \<and>
   cells (fst (Process_mem onCopies structuralDigest
          \<lparr>cells = callerStore(0 := modifiedDoc), nextAddr = 1\<rparr>
          \<lparr>inputs = [\<lparr>Source = plainSource [0]\<rparr>],
           opts = applyOptions [WithContentHash False] defaultOptions\<rparr>)) 1 = modifiedDoc \<and>
   modifiedDoc \<noteq> valueDoc"
  by (simp add: New_def Validate_def callerStore_def Process_def BuildPostRendererChain_def
      Process_mem_def DeepCopy_mem_def hashObjects_mem_def Let_def modifiedDoc_def example_defs)

text \<open>
  Why the stages must keep to their slices: a stage is the caller's code and may hold the
  caller's documents. With one that overwrites the document at address 0, the stored
  document has changed when \<^verbatim>\<open>Process\<close> returns.
\<close>

lemma stage_holding_a_document_can_change_it:
  "cells (fst (Process_mem clobbering structuralDigest \<lparr>cells = callerStore, nextAddr = 1\<rparr>
          \<lparr>inputs = [\<lparr>Source = plainSource [0]\<rparr>],
           opts = applyOptions [WithTransformer keepAll, WithContentHash False]
                    defaultOptions\<rparr>)) 0 = otherDoc \<and>
   callerStore 0 = valueDoc \<and> otherDoc \<noteq> valueDoc \<and>
   \<not> keepsToItsSlice (clobbering keepAll)"
proof -
  let ?m = "\<lparr>cells = callerStore, nextAddr = 1\<rparr>"
  have "\<not> keepsToItsSlice (clobbering keepAll)"
  proof
    assume keeps: "keepsToItsSlice (clobbering keepAll)"
    have run: "clobbering keepAll ?m [] = (?m\<lparr>cells := (cells ?m)(0 := otherDoc)\<rparr>, Inr [])"
      by (simp add: clobbering_def)
    from keepsToItsSliceD[OF keeps run]
    have "\<forall>a<nextAddr ?m. a \<notin> set ([]::addr list) \<longrightarrow>
        cells (?m\<lparr>cells := (cells ?m)(0 := otherDoc)\<rparr>) a = cells ?m a"
      by blast
    then have "otherDoc = callerStore 0" by simp
    then show False by (simp add: callerStore_def otherDoc_def valueDoc_def)
  qed
  moreover have "cells (fst (Process_mem clobbering structuralDigest
          \<lparr>cells = callerStore, nextAddr = 1\<rparr>
          \<lparr>inputs = [\<lparr>Source = plainSource [0]\<rparr>],
           opts = applyOptions [WithTransformer keepAll, WithContentHash False]
                    defaultOptions\<rparr>)) 0 = otherDoc"
    by (simp add: Process_mem_def BuildPostRendererChain_def DeepCopy_mem_def Let_def
        clobbering_def hashObjects_mem_def callerStore_def example_defs)
  ultimately show ?thesis by (simp add: callerStore_def otherDoc_def valueDoc_def)
qed

text \<open>
  One stored document, hashing off, a selector, and a per-source stage that keeps all and
  returns its manifests in new cells: the stored document is as it was, the copy is cell 1,
  and the manifest returned is cell 2, which holds the document.
\<close>

theorem Process_writes_only_its_copies_witness:
  "snd (Process_mem onCopies structuralDigest \<lparr>cells = callerStore, nextAddr = 1\<rparr>
          \<lparr>inputs = [\<lparr>Source = \<lparr>Objects = [0], PostRenderers = [keepAll]\<rparr>\<rparr>],
           opts = applyOptions [WithSourceSelector smallSource, WithContentHash False]
                    defaultOptions\<rparr>) = Inr [2] \<and>
   map (cells (fst (Process_mem onCopies structuralDigest \<lparr>cells = callerStore, nextAddr = 1\<rparr>
          \<lparr>inputs = [\<lparr>Source = \<lparr>Objects = [0], PostRenderers = [keepAll]\<rparr>\<rparr>],
           opts = applyOptions [WithSourceSelector smallSource, WithContentHash False]
                    defaultOptions\<rparr>))) [0, 2] = [valueDoc, valueDoc] \<and>
   Process structuralDigest callerStore
          \<lparr>inputs = [\<lparr>Source = \<lparr>Objects = [0], PostRenderers = [keepAll]\<rparr>\<rparr>],
           opts = applyOptions [WithSourceSelector smallSource, WithContentHash False]
                    defaultOptions\<rparr> = Inr [valueDoc]"
proof -
  let ?m = "\<lparr>cells = callerStore, nextAddr = 1\<rparr>"
  let ?r = "\<lparr>inputs = [\<lparr>Source = \<lparr>Objects = [0], PostRenderers = [keepAll]\<rparr>\<rparr>],
           opts = applyOptions [WithSourceSelector smallSource, WithContentHash False]
                    defaultOptions\<rparr>"
  let ?res = "Process_mem onCopies structuralDigest ?m ?r"
  have stages: "\<forall>p\<in>set (stagesOf ?r). keepsToItsSlice (onCopies p)"
    by (simp add: onCopies_keepsToItsSlice)
  have stored: "\<forall>holder\<in>set (inputs ?r). \<forall>obj\<in>set (Objects (Source holder)). obj < nextAddr ?m"
    by simp
  have run: "?res = (fst ?res, snd ?res)" by simp
  have comp: "\<forall>p\<in>set (stagesOf ?r). computes (onCopies p) p"
    by (simp add: onCopies_computes)
  have sels: "\<forall>s\<in>set (SourceSelectors (opts ?r)). readsItsSource s"
    by (simp add: readsItsSource_def example_defs)
  note isolation = Process_writes_only_its_copies[OF stages stored run]
  have "\<forall>a<nextAddr ?m. cells (fst ?res) a = cells ?m a"
    using isolation by blast
  then have zero: "cells (fst ?res) 0 = valueDoc" by (simp add: callerStore_def)
  have content: "Process structuralDigest (cells ?m) ?r = map_sum id (map (cells (fst ?res))) (snd ?res)"
    using isolation comp sels by blast
  have out: "snd ?res = Inr [2]"
    by (simp add: Process_mem_def BuildPostRendererChain_def DeepCopy_mem_def Let_def
        onCopies_def hashObjects_mem_def callerStore_def example_defs)
  have elements: "Process structuralDigest callerStore ?r = Inr [valueDoc]"
    by (simp add: Process_def BuildPostRendererChain_def callerStore_def example_defs)
  have two: "cells (fst ?res) 2 = valueDoc"
    using content out elements by simp
  show ?thesis using zero out two elements by simp
qed

end
